theory Spec2Isabelle
  imports Complex_Main "HOL-Library.Log_Nat"
begin

section \<open>Numbers, exceptions and calendar dates\<close>

text \<open>
  The calculator of \<^verbatim>\<open>loan_calculator.py\<close> computes with Python floats. They are
  modelled by the real numbers they approximate: every arithmetic operation is exact, and
  \<^verbatim>\<open>round(x, n)\<close> rounds the exact value to \<open>n\<close> decimals, a tie going to the even
  neighbour as Python does. Overflow, infinities and NaN have no counterpart here.
  \<^verbatim>\<open>datetime.date.today()\<close> is the parameter \<open>today\<close> of every function that reads it.

  A value that sits on a rounding tie as a real number is in general not on the tie as a
  float: 107 / 40 is 2.675, and the float nearest to it lies below 2.675. Where a result
  depends on that, the payment solver is also given on binary64 values
  (\<open>calculate_monthly_payment_binary64\<close>), every operation rounding its exact result to
  the nearest double.
\<close>

datatype error = ZeroDivisionError | ValueError

definition py_div :: "real \<Rightarrow> real \<Rightarrow> error + real" where
  "py_div x y = (if y = 0 then Inl ZeroDivisionError else Inr (x / y))"

definition py_pow :: "real \<Rightarrow> int \<Rightarrow> error + real" where
  \<comment> \<open>\<^verbatim>\<open>x ** n\<close> for an integer exponent: zero to a negative power raises.\<close>
  "py_pow x n = (if x = 0 \<and> n < 0 then Inl ZeroDivisionError else Inr (x powi n))"

definition py_round :: "real \<Rightarrow> nat \<Rightarrow> real" where
  "py_round x ndigits =
     (let scaled = x * 10 ^ ndigits;
          f = \<lfloor>scaled\<rfloor>;
          d = scaled - of_int f
      in (if d < 1 / 2 then of_int f
          else if 1 / 2 < d then of_int (f + 1)
          else if even f then of_int f
          else of_int (f + 1)) / 10 ^ ndigits)"

record date =
  year :: int
  month :: int
  day :: int

definition in_calendar :: "date \<Rightarrow> bool" where
  \<comment> \<open>the years and months that \<^verbatim>\<open>datetime.date\<close> accepts\<close>
  "in_calendar d \<longleftrightarrow> 1 \<le> year d \<and> year d \<le> 9999 \<and> 1 \<le> month d \<and> month d \<le> 12"

definition valid_date :: "date \<Rightarrow> bool" where
  \<comment> \<open>a value of \<^verbatim>\<open>datetime.date\<close>, such as \<^verbatim>\<open>datetime.date.today()\<close> returns\<close>
  "valid_date d \<longleftrightarrow> in_calendar d \<and> 1 \<le> day d \<and> day d \<le> 31"

definition first_of_month :: "int \<Rightarrow> int \<Rightarrow> error + date" where
  \<comment> \<open>\<^verbatim>\<open>datetime.date(y, m, 1)\<close>\<close>
  "first_of_month y m =
     (if 1 \<le> y \<and> y \<le> 9999 \<and> 1 \<le> m \<and> m \<le> 12
      then Inr \<lparr>year = y, month = m, day = 1\<rparr>
      else Inl ValueError)"

definition date_le :: "date \<Rightarrow> date \<Rightarrow> bool" where
  \<comment> \<open>\<^verbatim>\<open>a <= b\<close> on dates: year, then month, then day\<close>
  "date_le a b \<longleftrightarrow>
     year a < year b \<or>
     (year a = year b \<and> (month a < month b \<or> (month a = month b \<and> day a \<le> day b)))"

definition increment_month :: "date \<Rightarrow> error + date" where
  "increment_month d = first_of_month (year d + month d div 12) (month d mod 12 + 1)"

definition months_until :: "date \<Rightarrow> date \<Rightarrow> int" where
  \<comment> \<open>the local \<^verbatim>\<open>months\<close> of the payment and rate solvers\<close>
  "months_until today end_date =
     (year end_date - year today) * 12 + (month end_date - month today)"

definition month_index :: "date \<Rightarrow> int" where
  \<comment> \<open>months counted from year 0, to compare and count month steps\<close>
  "month_index d = year d * 12 + month d"

definition months_left :: "date \<Rightarrow> nat" where
  \<comment> \<open>how many month steps a date can still take before \<^verbatim>\<open>datetime.date\<close> refuses the year\<close>
  "months_left d =
     (if in_calendar d then nat (120000 - month_index d) else 120001)"

section \<open>Payment solver\<close>

definition annuity_payment :: "real \<Rightarrow> real \<Rightarrow> int \<Rightarrow> error + real" where
  \<comment> \<open>the body of the \<^verbatim>\<open>try\<close> block, before rounding\<close>
  "annuity_payment balance monthly_rate months =
     (if monthly_rate = 0 then py_div balance (of_int months)
      else (case py_pow (1 + monthly_rate) (- months) of
              Inl e \<Rightarrow> Inl e
            | Inr p \<Rightarrow> py_div (balance * monthly_rate) (1 - p)))"

definition calculate_monthly_payment :: "date \<Rightarrow> real \<Rightarrow> real \<Rightarrow> date \<Rightarrow> real option" where
  "calculate_monthly_payment today balance interest_rate end_date =
     (let months = months_until today end_date in
      if months \<le> 0 then None
      else
        let monthly_rate = (interest_rate / 100) / 12 in
        (case annuity_payment balance monthly_rate months of
           Inl e \<Rightarrow> None
         | Inr payment \<Rightarrow> Some (py_round payment 2)))"

subsection \<open>The payment solver on binary64 values\<close>

text \<open>
  A finite Python float is a real number of the form \<open>m * 2^(e - 52)\<close> with an integer
  \<open>m\<close> of at most 53 bits and \<open>e\<close> at least \<open>-1022\<close>. Each float operation returns the
  double nearest to its exact result, a tie going to the even significand; \<open>binary64\<close>
  is that rounding. \<^verbatim>\<open>round(x, 2)\<close> on a double \<open>x\<close> returns the double nearest to the
  exact value of \<open>x\<close> rounded to two decimals. Results beyond the largest double are not
  modelled. The power \<^verbatim>\<open>**\<close> is left to the C library, whose result is not specified
  to the last bit: it is the parameter \<open>float_pow\<close>. The arguments \<open>balance\<close> and
  \<open>interest_rate\<close> stand for finite doubles or integers.
\<close>

definition exponent2 :: "real \<Rightarrow> int" where
  \<comment> \<open>for \<open>x > 0\<close>, the \<open>e\<close> with \<open>2^e \<le> x < 2^(e + 1)\<close>\<close>
  "exponent2 x = (if 1 \<le> x then bitlen \<lfloor>x\<rfloor> - 1 else - bitlen (\<lceil>1 / x\<rceil> - 1))"

definition binary64 :: "real \<Rightarrow> real" where
  \<comment> \<open>the double nearest to \<open>x\<close>; below \<open>2^(-1022)\<close> the spacing stays \<open>2^(-1074)\<close>\<close>
  "binary64 x =
     (if x = 0 then 0
      else let e = max (exponent2 \<bar>x\<bar>) (- 1022);
               ulp = 2 powi (e - 52)
           in py_round (x / ulp) 0 * ulp)"

definition calculate_monthly_payment_binary64 ::
  "(real \<Rightarrow> int \<Rightarrow> error + real) \<Rightarrow> date \<Rightarrow> real \<Rightarrow> real \<Rightarrow> date \<Rightarrow> real option" where
  "calculate_monthly_payment_binary64 float_pow today balance interest_rate end_date =
     (let months = months_until today end_date in
      if months \<le> 0 then None
      else
        let monthly_rate = binary64 (binary64 (interest_rate / 100) / 12) in
        (case (if monthly_rate = 0 then Inr (binary64 (balance / of_int months))
               else (case float_pow (binary64 (1 + monthly_rate)) (- months) of
                       Inl e \<Rightarrow> Inl e
                     | Inr p \<Rightarrow>
                         let denominator = binary64 (1 - p) in
                         if denominator = 0 then Inl ZeroDivisionError
                         else Inr (binary64 (binary64 (balance * monthly_rate) / denominator)))) of
           Inl e \<Rightarrow> None
         | Inr payment \<Rightarrow> Some (binary64 (py_round payment 2))))"

section \<open>Payoff simulator\<close>

definition max_months :: nat where
  "max_months = 1200"

text \<open>
  How the \<^verbatim>\<open>while\<close> loop of \<^verbatim>\<open>calculate_end_date\<close> is left: through the
  \<^verbatim>\<open>return None\<close> inside it, with the balance and the count of that iteration, or through
  its condition, with the final values of \<^verbatim>\<open>balance\<close>, \<^verbatim>\<open>current\<close> and \<^verbatim>\<open>count\<close>.
\<close>

datatype sim_exit = Unrepayable real nat | Loop_done real date nat

function end_date_loop :: "real \<Rightarrow> real \<Rightarrow> real \<Rightarrow> date \<Rightarrow> nat \<Rightarrow> error + sim_exit" where
  "end_date_loop monthly_payment monthly_rate balance current count =
     (if 0 < balance \<and> count < max_months then
        let interest = balance * monthly_rate in
        if monthly_payment \<le> interest \<and> 0 < count then Inr (Unrepayable balance count)
        else
          let principal_paid = monthly_payment - interest;
              balance1 = balance - principal_paid;
              balance2 = max 0 (py_round balance1 2)
          in (case increment_month current of
                Inl e \<Rightarrow> Inl e
              | Inr current' \<Rightarrow>
                  end_date_loop monthly_payment monthly_rate balance2 current' (count + 1))
      else Inr (Loop_done balance current count))"
  by pat_completeness auto
termination
  by (relation "measure (\<lambda>(mp, r, b, c, n). max_months - n)") auto

declare end_date_loop.simps [simp del]

definition calculate_end_date :: "date \<Rightarrow> real \<Rightarrow> real \<Rightarrow> real \<Rightarrow> error + date option" where
  "calculate_end_date today balance monthly_payment interest_rate =
     (if monthly_payment \<le> 0 then Inr None
      else
        let monthly_rate = (interest_rate / 100) / 12 in
        (case end_date_loop monthly_payment monthly_rate balance today 0 of
           Inl e \<Rightarrow> Inl e
         | Inr (Unrepayable b n) \<Rightarrow> Inr None
         | Inr (Loop_done b current count) \<Rightarrow>
             Inr (if count < max_months then Some current else None)))"

section \<open>Rate solver\<close>

text \<open>
  How the \<^verbatim>\<open>for _ in range(300)\<close> loop of \<^verbatim>\<open>calculate_interest_rate\<close> is left,
  each time with the number of iterations begun: the payment solver failed, the estimate
  came within a cent of the payment, or the range was used up.
\<close>

datatype rate_exit = No_estimate nat | Converged real nat | Exhausted nat

function rate_loop :: "date \<Rightarrow> real \<Rightarrow> real \<Rightarrow> date \<Rightarrow> nat \<Rightarrow> real \<Rightarrow> real \<Rightarrow> rate_exit" where
  "rate_loop today balance monthly_payment end_date i low high =
     (if i < 300 then
        let mid = (low + high) / 2 in
        (case calculate_monthly_payment today balance mid end_date of
           None \<Rightarrow> No_estimate (i + 1)
         | Some estimated \<Rightarrow>
             if \<bar>estimated - monthly_payment\<bar> < 0.01 then Converged (py_round mid 4) (i + 1)
             else if monthly_payment < estimated
               then rate_loop today balance monthly_payment end_date (i + 1) low mid
               else rate_loop today balance monthly_payment end_date (i + 1) mid high)
      else Exhausted i)"
  by pat_completeness auto
termination
  by (relation "measure (\<lambda>(t, b, mp, e, i, lo, hi). 300 - i)") auto

declare rate_loop.simps [simp del]

definition calculate_interest_rate :: "date \<Rightarrow> real \<Rightarrow> real \<Rightarrow> date \<Rightarrow> error + real option" where
  "calculate_interest_rate today balance monthly_payment end_date =
     (let months = months_until today end_date in
      if months \<le> 0 \<or> monthly_payment \<le> 0 then Inr None
      else
        (case py_div balance (of_int months) of
           Inl e \<Rightarrow> Inl e
         | Inr least \<Rightarrow>
             if monthly_payment \<le> least then Inr None
             else
               (case rate_loop today balance monthly_payment end_date 0 0.0001 100.0 of
                  Converged r n \<Rightarrow> Inr (Some r)
                | No_estimate n \<Rightarrow> Inr None
                | Exhausted n \<Rightarrow> Inr None)))"

section \<open>Schedule generator\<close>

text \<open>
  A line of the schedule is modelled by the five values it prints; the header, the rule
  under it and the layout of the text are left out.
\<close>

record row =
  row_date :: date
  row_payment :: real
  row_interest :: real
  row_principal :: real
  row_balance :: real

datatype breakdown = Cannot_generate | Schedule "row list" real

function breakdown_loop ::
  "real \<Rightarrow> real \<Rightarrow> date \<Rightarrow> real \<Rightarrow> date \<Rightarrow> real \<Rightarrow> row list \<Rightarrow> error + row list \<times> real" where
  "breakdown_loop monthly_payment monthly_rate end_date_calc balance current_date
       total_interest_paid result =
     (if 0 < balance \<and> date_le current_date end_date_calc then
        let interest = balance * monthly_rate;
            is_final_payment = (year current_date = year end_date_calc
                                \<and> month current_date = month end_date_calc);
            final = (is_final_payment \<or> balance < monthly_payment);
            principal_paid = (if final then balance else monthly_payment - interest);
            payment = (if final then principal_paid + interest else monthly_payment);
            balance1 = (if final then 0 else balance - principal_paid);
            balance2 = max 0 (py_round balance1 2);
            total' = total_interest_paid + py_round interest 2;
            result' = result @ [\<lparr>row_date = current_date,
                                 row_payment = py_round payment 2,
                                 row_interest = py_round interest 2,
                                 row_principal = py_round principal_paid 2,
                                 row_balance = balance2\<rparr>]
        in if balance2 = 0 then Inr (result', total')
           else (case increment_month current_date of
                   Inl e \<Rightarrow> Inl e
                 | Inr current' \<Rightarrow>
                     breakdown_loop monthly_payment monthly_rate end_date_calc balance2 current'
                       total' result')
      else Inr (result, total_interest_paid))"
  by pat_completeness auto
termination
proof (relation "measure (\<lambda>(mp, r, e, b, cur, t, res). months_left cur)", goal_cases)
  case 1
  show ?case by simp
next
  case (2 mp r e b d t res i f fin pp pay b1 b2 t' res' d')
  from \<open>increment_month d = Inr d'\<close>
  have v: "in_calendar d'"
    and y: "year d' = year d + month d div 12" and m: "month d' = month d mod 12 + 1"
    by (auto simp: increment_month_def first_of_month_def in_calendar_def split: if_splits)
  have l': "months_left d' = nat (120000 - month_index d')"
    using v by (simp add: months_left_def)
  have "months_left d' < months_left d"
  proof (cases "in_calendar d")
    case True
    then have "month_index d' = month_index d + 1"
      unfolding month_index_def in_calendar_def y m by presburger
    moreover have "month_index d' \<le> 120000"
      using v unfolding month_index_def in_calendar_def by linarith
    moreover have "months_left d = nat (120000 - month_index d)"
      using True by (simp add: months_left_def)
    ultimately show ?thesis using l' by linarith
  next
    case False
    then have "months_left d = 120001" by (simp add: months_left_def)
    moreover have "0 \<le> month_index d'"
      using v unfolding month_index_def in_calendar_def by linarith
    ultimately show ?thesis using l' by linarith
  qed
  then show ?case by simp
qed

declare breakdown_loop.simps [simp del]

definition calculate_interest_breakdown ::
  "date \<Rightarrow> real \<Rightarrow> real \<Rightarrow> real \<Rightarrow> date \<Rightarrow> error + breakdown" where
  \<comment> \<open>the parameter \<^verbatim>\<open>end_date\<close> is not read by the source\<close>
  "calculate_interest_breakdown today balance monthly_payment interest_rate end_date =
     (let monthly_rate = (interest_rate / 100) / 12 in
      case increment_month today of
        Inl e \<Rightarrow> Inl e
      | Inr current_date \<Rightarrow>
          (case calculate_end_date today balance monthly_payment interest_rate of
             Inl e \<Rightarrow> Inl e
           | Inr None \<Rightarrow> Inr Cannot_generate
           | Inr (Some end_date_calc) \<Rightarrow>
               (case breakdown_loop monthly_payment monthly_rate end_date_calc balance
                       current_date 0 [] of
                  Inl e \<Rightarrow> Inl e
                | Inr (result, total_interest_paid) \<Rightarrow>
                    Inr (Schedule result (py_round total_interest_paid 2)))))"

section \<open>Reading the results\<close>

definition is_unrepayable :: "error + sim_exit \<Rightarrow> bool" where
  \<comment> \<open>the simulator left its loop through \<^verbatim>\<open>return None # Unrepayable\<close>\<close>
  "is_unrepayable x = (case x of Inr (Unrepayable b n) \<Rightarrow> True | _ \<Rightarrow> False)"

definition hit_cap :: "error + sim_exit \<Rightarrow> bool" where
  \<comment> \<open>the simulator left its loop with \<^verbatim>\<open>count\<close> at \<^verbatim>\<open>max_months\<close>\<close>
  "hit_cap x = (case x of Inr (Loop_done b c n) \<Rightarrow> \<not> n < max_months | _ \<Rightarrow> False)"

definition iterations :: "rate_exit \<Rightarrow> nat" where
  "iterations x = (case x of No_estimate n \<Rightarrow> n | Converged r n \<Rightarrow> n | Exhausted n \<Rightarrow> n)"

definition next_balance :: "real \<Rightarrow> real \<Rightarrow> real \<Rightarrow> real" where
  \<comment> \<open>the balance after one regular step of either loop, from the balance before it\<close>
  "next_balance monthly_payment monthly_rate balance =
     max 0 (py_round (balance - (monthly_payment - balance * monthly_rate)) 2)"


definition principal_total :: "row list \<Rightarrow> real" where
  "principal_total rows = sum_list (map row_principal rows)"

section \<open>Rounding\<close>

lemma py_round_cases:
  obtains k :: int where "py_round x n = of_int k / 10 ^ n"
    and "\<bar>of_int k - x * 10 ^ n\<bar> \<le> 1 / 2"
    and "k = \<lfloor>x * 10 ^ n\<rfloor> \<or> (k = \<lfloor>x * 10 ^ n\<rfloor> + 1 \<and> 1 / 2 \<le> x * 10 ^ n - of_int \<lfloor>x * 10 ^ n\<rfloor>)"
proof -
  define y where "y = x * 10 ^ n"
  define f where "f = \<lfloor>y\<rfloor>"
  define d where "d = y - of_int f"
  have d: "0 \<le> d" "d < 1" unfolding d_def f_def by linarith+
  define k where "k = (if d < 1 / 2 then f else if 1 / 2 < d then f + 1 else if even f then f else f + 1)"
  have 1: "py_round x n = of_int k / 10 ^ n"
    unfolding py_round_def Let_def k_def d_def f_def y_def by simp
  have 2: "\<bar>of_int k - y\<bar> \<le> 1 / 2"
    using d unfolding k_def d_def by (auto split: if_splits)
  have 3: "k = f \<or> (k = f + 1 \<and> 1 / 2 \<le> d)"
    unfolding k_def by auto
  show thesis
    using that[of k] 1 2 3 unfolding y_def f_def d_def by blast
qed

lemma py_round_error: "\<bar>py_round x n - x\<bar> \<le> 1 / (2 * 10 ^ n)"
proof -
  obtain k :: int where k: "py_round x n = of_int k / 10 ^ n" "\<bar>of_int k - x * 10 ^ n\<bar> \<le> 1 / 2"
    by (rule py_round_cases)
  have p: "(0::real) < 10 ^ n" by simp
  have "py_round x n - x = (of_int k - x * 10 ^ n) / 10 ^ n"
    using p by (simp add: k(1) field_simps)
  then have "\<bar>py_round x n - x\<bar> = \<bar>of_int k - x * 10 ^ n\<bar> / 10 ^ n"
    using p by (simp add: abs_divide)
  also have "\<dots> \<le> (1 / 2) / 10 ^ n"
    using divide_right_mono[OF k(2), of "10 ^ n"] by simp
  finally show ?thesis by simp
qed

lemma py_round_lower:
  assumes "of_int m / 10 ^ n \<le> x"
  shows "of_int m / 10 ^ n \<le> py_round x n"
proof -
  obtain k :: int where k: "py_round x n = of_int k / 10 ^ n"
    "k = \<lfloor>x * 10 ^ n\<rfloor> \<or> (k = \<lfloor>x * 10 ^ n\<rfloor> + 1 \<and> 1 / 2 \<le> x * 10 ^ n - of_int \<lfloor>x * 10 ^ n\<rfloor>)"
    by (rule py_round_cases)
  have p: "(0::real) < 10 ^ n" by simp
  from assms p have "of_int m \<le> x * 10 ^ n" by (simp add: field_simps)
  then have "m \<le> \<lfloor>x * 10 ^ n\<rfloor>" by (simp add: le_floor_iff)
  with k(2) have "m \<le> k" by auto
  then have "(of_int m :: real) \<le> of_int k" by simp
  then show ?thesis using p by (simp add: k(1) divide_right_mono)
qed

lemma py_round_upper:
  assumes "x \<le> of_int m / 10 ^ n"
  shows "py_round x n \<le> of_int m / 10 ^ n"
proof -
  obtain k :: int where k: "py_round x n = of_int k / 10 ^ n"
    "k = \<lfloor>x * 10 ^ n\<rfloor> \<or> (k = \<lfloor>x * 10 ^ n\<rfloor> + 1 \<and> 1 / 2 \<le> x * 10 ^ n - of_int \<lfloor>x * 10 ^ n\<rfloor>)"
    by (rule py_round_cases)
  have p: "(0::real) < 10 ^ n" by simp
  from assms p have le: "x * 10 ^ n \<le> of_int m" by (simp add: field_simps)
  have "k \<le> m"
  proof (cases "k = \<lfloor>x * 10 ^ n\<rfloor>")
    case True
    then show ?thesis using le by (simp add: floor_le_iff)
  next
    case False
    with k(2) have k1: "k = \<lfloor>x * 10 ^ n\<rfloor> + 1" and h: "1 / 2 \<le> x * 10 ^ n - of_int \<lfloor>x * 10 ^ n\<rfloor>"
      by auto
    from h le have "of_int \<lfloor>x * 10 ^ n\<rfloor> < (of_int m :: real)" by linarith
    then have "\<lfloor>x * 10 ^ n\<rfloor> < m" by simp
    then show ?thesis using k1 by simp
  qed
  then have "(of_int k :: real) \<le> of_int m" by simp
  then show ?thesis using p by (simp add: k(1) divide_right_mono)
qed

lemma py_round_nonneg: "0 \<le> x \<Longrightarrow> 0 \<le> py_round x n"
  using py_round_lower[of 0 n x] by simp

lemma py_round_within:
  assumes "of_int m / 10 ^ n - 1 / (2 * 10 ^ n) < x" "x < of_int m / 10 ^ n + 1 / (2 * 10 ^ n)"
  shows "py_round x n = of_int m / 10 ^ n"
proof -
  obtain k :: int where k: "py_round x n = of_int k / 10 ^ n" "\<bar>of_int k - x * 10 ^ n\<bar> \<le> 1 / 2"
    by (rule py_round_cases)
  have p: "(0::real) < 10 ^ n" by simp
  from assms p have "of_int m - 1 / 2 < x * 10 ^ n" "x * 10 ^ n < of_int m + 1 / 2"
    by (simp_all add: field_simps)
  with k(2) have "\<bar>(of_int k :: real) - of_int m\<bar> < 1" by linarith
  then have "\<bar>k - m\<bar> < 1" by linarith
  then have "k = m" by linarith
  then show ?thesis by (simp add: k(1))
qed

lemma py_round_zero: "py_round 0 n = 0"
  by (simp add: py_round_def)

section \<open>Rounding to binary64\<close>

lemma binary64_zero: "binary64 0 = 0"
  by (simp add: binary64_def)

lemma exponent2_bounds:
  assumes "0 < x"
  shows "2 powi exponent2 x \<le> x \<and> x < 2 powi (exponent2 x + 1)"
proof (cases "1 \<le> x")
  case True
  then have p: "0 < \<lfloor>x\<rfloor>" by linarith
  from bitlen_bounds[OF p]
  have b: "2 ^ nat (bitlen \<lfloor>x\<rfloor> - 1) \<le> \<lfloor>x\<rfloor>" "\<lfloor>x\<rfloor> < 2 ^ nat (bitlen \<lfloor>x\<rfloor>)" by simp_all
  have bl: "1 \<le> bitlen \<lfloor>x\<rfloor>" using p bitlen_nonneg[of "\<lfloor>x\<rfloor>"] bitlen_eq_zero_iff[of "\<lfloor>x\<rfloor>"] by linarith
  have "(2::real) ^ nat (bitlen \<lfloor>x\<rfloor> - 1) \<le> of_int \<lfloor>x\<rfloor>"
    using b(1) by (metis of_int_le_iff of_int_numeral of_int_power)
  then have 1: "(2::real) ^ nat (bitlen \<lfloor>x\<rfloor> - 1) \<le> x" by linarith
  have "\<lfloor>x\<rfloor> + 1 \<le> 2 ^ nat (bitlen \<lfloor>x\<rfloor>)" using b(2) by simp
  then have "of_int (\<lfloor>x\<rfloor> + 1) \<le> (2::real) ^ nat (bitlen \<lfloor>x\<rfloor>)"
    by (metis of_int_le_iff of_int_numeral of_int_power)
  then have 2: "x < (2::real) ^ nat (bitlen \<lfloor>x\<rfloor>)" by linarith
  show ?thesis using True 1 2 bl
    by (simp add: exponent2_def power_int_def)
next
  case False
  with assms have x: "0 < x" "x < 1" by simp_all
  define m where "m = \<lceil>1 / x\<rceil> - 1"
  have y: "1 < 1 / x" using x by simp
  have m: "of_int m < 1 / x" "1 / x \<le> of_int m + 1" "0 < m"
    using y unfolding m_def by linarith+
  from bitlen_bounds[OF m(3)]
  have b: "2 ^ nat (bitlen m - 1) \<le> m" "m < 2 ^ nat (bitlen m)" by simp_all
  have bl: "1 \<le> bitlen m" using m(3) bitlen_nonneg[of m] bitlen_eq_zero_iff[of m] by linarith
  have "(2::real) ^ nat (bitlen m - 1) \<le> of_int m"
    using b(1) by (metis of_int_le_iff of_int_numeral of_int_power)
  then have 1: "(2::real) ^ nat (bitlen m - 1) < 1 / x" using m(1) by linarith
  have "m + 1 \<le> 2 ^ nat (bitlen m)" using b(2) by simp
  then have "of_int (m + 1) \<le> (2::real) ^ nat (bitlen m)"
    by (metis of_int_le_iff of_int_numeral of_int_power)
  then have 2: "1 / x \<le> (2::real) ^ nat (bitlen m)" using m(2) by simp
  have e: "exponent2 x = - bitlen m" using False by (simp add: exponent2_def m_def)
  have A: "2 powi (- bitlen m) \<le> x"
  proof -
    have "2 powi (- bitlen m) = 1 / (2::real) ^ nat (bitlen m)"
      using bl by (simp add: power_int_def divide_simps)
    also have "\<dots> \<le> x" using 2 x(1)
      by (simp add: field_simps)
    finally show ?thesis .
  qed
  have B: "x < 2 powi (- bitlen m + 1)"
  proof -
    have "- bitlen m + 1 = - (bitlen m - 1)" by simp
    then have "2 powi (- bitlen m + 1) = 1 / (2::real) ^ nat (bitlen m - 1)"
      using bl by (simp add: power_int_def divide_simps)
    moreover have "x < 1 / (2::real) ^ nat (bitlen m - 1)" using 1 x(1)
      by (simp add: field_simps)
    ultimately show ?thesis by simp
  qed
  show ?thesis using A B e by simp
qed

lemma binary64_error: "\<bar>binary64 x - x\<bar> \<le> (\<bar>x\<bar> + 1) / 2 ^ 53"
proof (cases "x = 0")
  case True
  then show ?thesis by (simp add: binary64_def)
next
  case False
  define e where "e = max (exponent2 \<bar>x\<bar>) (- 1022)"
  define ulp :: real where "ulp = 2 powi (e - 52)"
  have b: "binary64 x = py_round (x / ulp) 0 * ulp"
    using False by (simp add: binary64_def Let_def e_def ulp_def)
  have up: "0 < ulp" by (simp add: ulp_def)
  have "\<bar>py_round (x / ulp) 0 - x / ulp\<bar> \<le> 1 / 2"
    using py_round_error[of "x / ulp" 0] by simp
  then have "\<bar>py_round (x / ulp) 0 - x / ulp\<bar> * ulp \<le> (1 / 2) * ulp"
    using up by (simp add: mult_right_mono)
  moreover have "\<bar>py_round (x / ulp) 0 - x / ulp\<bar> * ulp = \<bar>binary64 x - x\<bar>"
  proof -
    have "binary64 x - x = (py_round (x / ulp) 0 - x / ulp) * ulp"
      using up by (simp add: b field_simps)
    then show ?thesis using up by (simp add: abs_mult)
  qed
  ultimately have err: "\<bar>binary64 x - x\<bar> \<le> ulp / 2" by simp
  have u: "ulp \<le> (\<bar>x\<bar> + 1) / 2 ^ 52"
  proof (cases "- 1022 \<le> exponent2 \<bar>x\<bar>")
    case True
    then have "e = exponent2 \<bar>x\<bar>" by (simp add: e_def)
    moreover have "2 powi exponent2 \<bar>x\<bar> \<le> \<bar>x\<bar>"
      using exponent2_bounds[of "\<bar>x\<bar>"] False by simp
    moreover have "ulp = 2 powi e / 2 ^ 52"
      unfolding ulp_def by (simp add: power_int_diff)
    ultimately have "ulp \<le> \<bar>x\<bar> / 2 ^ 52" by (simp add: divide_right_mono)
    then show ?thesis by (simp add: add_divide_distrib)
  next
    case False
    then have "e = - 1022" by (simp add: e_def)
    then have "ulp = 2 powi (- 1074)" by (simp add: ulp_def)
    also have "\<dots> \<le> 2 powi (- 52)"
      by (rule power_int_increasing) simp_all
    also have "\<dots> = 1 / 2 ^ 52" by (simp add: power_int_minus divide_simps)
    also have "\<dots> \<le> (\<bar>x\<bar> + 1) / 2 ^ 52" by (simp add: divide_right_mono)
    finally show ?thesis .
  qed
  have "ulp / 2 \<le> ((\<bar>x\<bar> + 1) / 2 ^ 52) / 2" using u by simp
  also have "\<dots> = (\<bar>x\<bar> + 1) / 2 ^ 53" by simp
  finally show ?thesis using err by linarith
qed

lemma binary64_round_error:
  "\<bar>binary64 (py_round (binary64 q) 2) - q\<bar> \<le> 1 / 200 + (\<bar>q\<bar> + 1) / 2 ^ 51"
proof -
  define d :: real where "d = 1 / 2 ^ 53"
  have d: "0 < d" "d \<le> 1 / 4" by (simp_all add: d_def)
  define x1 where "x1 = binary64 q"
  define x2 where "x2 = py_round x1 2"
  define x3 where "x3 = binary64 x2"
  define aq where "aq = \<bar>q\<bar>"
  define a2 where "a2 = \<bar>x2\<bar>"
  define e1 where "e1 = \<bar>x1 - q\<bar>"
  define e2 where "e2 = \<bar>x2 - x1\<bar>"
  define e3 where "e3 = \<bar>x3 - x2\<bar>"
  define t where "t = (aq + 1) * d"
  have 1: "e1 \<le> t"
    using binary64_error[of q] by (simp add: x1_def d_def t_def e1_def aq_def)
  have 2: "e2 \<le> 1 / 200"
    using py_round_error[of x1 2] by (simp add: x2_def e2_def)
  have 3: "e3 \<le> (a2 + 1) * d"
    using binary64_error[of x2] by (simp add: x3_def d_def e3_def a2_def)
  have q0: "0 \<le> aq" by (simp add: aq_def)
  have t0: "0 \<le> t" using d q0 by (simp add: t_def)
  have "t \<le> (aq + 1) * (1 / 4)"
    unfolding t_def using d q0 by (intro mult_left_mono) simp_all
  then have t4: "4 * t \<le> aq + 1" by simp
  have tri: "a2 \<le> e2 + e1 + aq"
    unfolding a2_def e2_def e1_def aq_def by linarith
  from tri 1 2 t4 q0 have "a2 + 1 \<le> 2 * aq + 2" by linarith
  then have "(a2 + 1) * d \<le> (2 * aq + 2) * d"
    using d by (intro mult_right_mono) simp_all
  then have "(a2 + 1) * d \<le> 2 * t" by (simp add: t_def algebra_simps)
  with 3 have 3: "e3 \<le> 2 * t" by linarith
  have "\<bar>x3 - q\<bar> \<le> e3 + e2 + e1"
    unfolding e3_def e2_def e1_def by linarith
  with 1 2 3 t0 have "\<bar>x3 - q\<bar> \<le> 1 / 200 + 4 * t" by linarith
  also have "4 * t = (\<bar>q\<bar> + 1) / 2 ^ 51" by (simp add: t_def d_def aq_def)
  finally show ?thesis by (simp add: x3_def x2_def x1_def)
qed

lemma binary64_100: "binary64 (py_round (binary64 100) 2) = 100"
  by code_simp

lemma binary64_107_40: "binary64 (py_round (binary64 (107 / 40)) 2) = binary64 2.67"
  by code_simp

lemma binary64_267: "binary64 2.67 = 1503076375634903 / 562949953421312"
  by code_simp

lemma py_round_107_40: "py_round (107 / 40) 2 = 2.68"
  by (simp add: py_round_def Let_def)

section \<open>Month steps\<close>

lemma month_div_mod:
  fixes m :: int
  assumes "1 \<le> m" and "m \<le> 12"
  shows "m div 12 = (if m = 12 then 1 else 0)" and "m mod 12 = (if m = 12 then 0 else m)"
  using assms by (cases "m = 12"; simp)+

lemma increment_month_Inr:
  assumes "increment_month d = Inr d'"
  shows "in_calendar d'" and "day d' = 1"
  using assms
  by (auto simp: increment_month_def first_of_month_def in_calendar_def split: if_splits)

lemma increment_month_index:
  assumes "increment_month d = Inr d'" and "in_calendar d"
  shows "month_index d' = month_index d + 1"
proof -
  from assms(1) have "year d' = year d + month d div 12" "month d' = month d mod 12 + 1"
    by (auto simp: increment_month_def first_of_month_def split: if_splits)
  moreover from assms(2) have "1 \<le> month d" "month d \<le> 12"
    by (simp_all add: in_calendar_def)
  ultimately show ?thesis
    by (simp add: month_index_def month_div_mod)
qed

lemma increment_month_succeeds:
  assumes "in_calendar d" and "month_index d < 120000"
  shows "\<exists>d'. increment_month d = Inr d'"
proof -
  from assms(1) have m: "1 \<le> month d" "month d \<le> 12" and y: "1 \<le> year d" "year d \<le> 9999"
    by (simp_all add: in_calendar_def)
  have "month d = 12 \<Longrightarrow> year d + 1 \<le> 9999"
    using assms(2) y unfolding month_index_def by linarith
  then have "1 \<le> year d + month d div 12 \<and> year d + month d div 12 \<le> 9999
        \<and> 1 \<le> month d mod 12 + 1 \<and> month d mod 12 + 1 \<le> 12"
    using m y by (simp add: month_div_mod)
  then show ?thesis
    by (simp add: increment_month_def first_of_month_def)
qed

lemma month_index_bound: "in_calendar d \<Longrightarrow> 13 \<le> month_index d \<and> month_index d \<le> 120000"
  unfolding month_index_def in_calendar_def by linarith

lemma month_index_less:
  assumes "in_calendar a" and "in_calendar b"
  shows "month_index a < month_index b \<longleftrightarrow>
           year a < year b \<or> (year a = year b \<and> month a < month b)"
proof (cases "year a < year b")
  case True
  then have "year a * 12 + 12 \<le> year b * 12" by linarith
  with True assms show ?thesis unfolding month_index_def in_calendar_def by linarith
next
  case False
  show ?thesis
  proof (cases "year a = year b")
    case True
    then show ?thesis unfolding month_index_def by simp
  next
    case ne: False
    with False have "year b * 12 + 12 \<le> year a * 12" by linarith
    with False ne assms show ?thesis unfolding month_index_def in_calendar_def by linarith
  qed
qed

lemma month_index_eq_iff:
  assumes "in_calendar a" and "in_calendar b"
  shows "year a = year b \<and> month a = month b \<longleftrightarrow> month_index a = month_index b"
proof
  assume "year a = year b \<and> month a = month b"
  then show "month_index a = month_index b" by (simp add: month_index_def)
next
  assume e: "month_index a = month_index b"
  from e month_index_less[OF assms] month_index_less[OF assms(2,1)]
  show "year a = year b \<and> month a = month b" by auto
qed

lemma date_le_index:
  assumes "in_calendar a" and "in_calendar b" and "day a = day b"
  shows "date_le a b \<longleftrightarrow> month_index a \<le> month_index b"
proof -
  have "date_le a b \<longleftrightarrow> (year a < year b \<or> (year a = year b \<and> month a < month b))
          \<or> (year a = year b \<and> month a = month b)"
    using assms(3) unfolding date_le_def by auto
  also have "\<dots> \<longleftrightarrow> month_index a < month_index b \<or> month_index a = month_index b"
    using month_index_less[OF assms(1,2)] month_index_eq_iff[OF assms(1,2)] by simp
  finally show ?thesis by auto
qed

lemma increment_month_left:
  assumes "increment_month d = Inr d'"
  shows "months_left d' < months_left d"
proof -
  note v = increment_month_Inr(1)[OF assms]
  have l': "months_left d' = nat (120000 - month_index d')"
    using v by (simp add: months_left_def)
  show ?thesis
  proof (cases "in_calendar d")
    case True
    have "month_index d' = month_index d + 1"
      by (rule increment_month_index[OF assms True])
    moreover have "month_index d' \<le> 120000"
      using month_index_bound[OF v] by simp
    moreover have "months_left d = nat (120000 - month_index d)"
      using True by (simp add: months_left_def)
    ultimately show ?thesis using l' by linarith
  next
    case False
    then have "months_left d = 120001" by (simp add: months_left_def)
    moreover have "0 \<le> month_index d'"
      using month_index_bound[OF v] by simp
    ultimately show ?thesis using l' by linarith
  qed
qed

section \<open>The loop of the simulator\<close>

lemma end_date_loop_stop:
  assumes "\<not> (0 < b \<and> n < max_months)"
  shows "end_date_loop mp r b c n = Inr (Loop_done b c n)"
proof -
  have c: "(0 < b \<and> n < max_months) = False" using assms by simp
  show ?thesis by (subst end_date_loop.simps) (simp only: c if_False)
qed

lemma end_date_loop_detect:
  assumes "0 < b" and "n < max_months" and "mp \<le> b * r" and "0 < n"
  shows "end_date_loop mp r b c n = Inr (Unrepayable b n)"
proof -
  have c: "(0 < b \<and> n < max_months) = True" using assms by simp
  have d: "(mp \<le> b * r \<and> 0 < n) = True" using assms by simp
  show ?thesis by (subst end_date_loop.simps) (simp only: c d Let_def if_True)
qed

lemma end_date_loop_step:
  assumes "0 < b" and "n < max_months" and "\<not> (mp \<le> b * r \<and> 0 < n)"
  shows "end_date_loop mp r b c n =
     (case increment_month c of
        Inl e \<Rightarrow> Inl e
      | Inr c' \<Rightarrow> end_date_loop mp r (max 0 (py_round (b - (mp - b * r)) 2)) c' (n + 1))"
proof -
  have c: "(0 < b \<and> n < max_months) = True" using assms by simp
  have d: "(mp \<le> b * r \<and> 0 < n) = False" using assms by simp
  show ?thesis by (subst end_date_loop.simps) (simp only: c d Let_def if_True if_False)
qed

lemma end_date_loop_next:
  assumes "0 < b" and "n < max_months" and "\<not> (mp \<le> b * r \<and> 0 < n)"
    and "increment_month c = Inr c1"
  shows "end_date_loop mp r b c n = end_date_loop mp r (next_balance mp r b) c1 (n + 1)"
  unfolding end_date_loop_step[OF assms(1-3)] next_balance_def assms(4) by simp

lemma end_date_loop_raise:
  assumes "0 < b" and "n < max_months" and "\<not> (mp \<le> b * r \<and> 0 < n)"
    and "increment_month c = Inl e"
  shows "end_date_loop mp r b c n = Inl e"
  unfolding end_date_loop_step[OF assms(1-3)] assms(4) by simp

lemma next_balance_nonneg: "0 \<le> next_balance mp r b"
  by (simp add: next_balance_def)

lemma end_date_loop_done:
  assumes "end_date_loop mp r b c n = Inr (Loop_done b' c' n')"
  shows "n \<le> n' \<and> (n \<le> max_months \<longrightarrow> n' \<le> max_months)
       \<and> \<not> (0 < b' \<and> n' < max_months)
       \<and> (0 \<le> b \<or> n < n' \<longrightarrow> 0 \<le> b')
       \<and> (n = n' \<longrightarrow> c' = c \<and> b' = b)
       \<and> (n < n' \<longrightarrow> in_calendar c' \<and> day c' = 1)
       \<and> (in_calendar c \<longrightarrow> in_calendar c' \<and> month_index c' = month_index c + int (n' - n))"
  using assms
proof (induction "max_months - n" arbitrary: b c n)
  case 0
  then have stop: "\<not> (0 < b \<and> n < max_months)" by simp
  from "0.prems" show ?case
    unfolding end_date_loop_stop[OF stop] using stop by auto
next
  case (Suc k)
  show ?case
  proof (cases "0 < b \<and> n < max_months")
    case False
    from Suc.prems show ?thesis
      unfolding end_date_loop_stop[OF False] using False by auto
  next
    case True
    show ?thesis
    proof (cases "mp \<le> b * r \<and> 0 < n")
      case det: True
      from Suc.prems show ?thesis
        unfolding end_date_loop_detect[of b n mp r c] using True det
        by (simp add: end_date_loop_detect)
    next
      case nodet: False
      have step: "(case increment_month c of
                     Inl e \<Rightarrow> Inl e
                   | Inr c1 \<Rightarrow> end_date_loop mp r (max 0 (py_round (b - (mp - b * r)) 2)) c1 (n + 1))
                  = Inr (Loop_done b' c' n')"
        using end_date_loop_step[of b n mp r c] True nodet Suc.prems by simp
      then obtain c1 where
        c1: "increment_month c = Inr c1"
        and rest: "end_date_loop mp r (max 0 (py_round (b - (mp - b * r)) 2)) c1 (n + 1)
                     = Inr (Loop_done b' c' n')"
        by (cases "increment_month c") simp_all
      have k: "k = max_months - (n + 1)" using Suc.hyps(2) by simp
      note ih = Suc.hyps(1)[OF k rest]
      note inc = increment_month_Inr[OF c1]
      have idx: "in_calendar c \<Longrightarrow> month_index c1 = month_index c + 1"
        using increment_month_index[OF c1] by simp
      have "n + 1 \<le> n'" using ih by simp
      moreover have "n \<le> max_months \<longrightarrow> n' \<le> max_months" using ih True by simp
      moreover have "\<not> (0 < b' \<and> n' < max_months)" using ih by simp
      moreover have "0 \<le> b'" using ih by simp
      moreover have "in_calendar c' \<and> day c' = 1"
      proof (cases "n + 1 = n'")
        case True
        with ih inc show ?thesis by simp
      next
        case False
        with \<open>n + 1 \<le> n'\<close> have "n + 1 < n'" by simp
        with ih show ?thesis by simp
      qed
      moreover have "in_calendar c \<longrightarrow> month_index c' = month_index c + int (n' - n)"
      proof
        assume ic: "in_calendar c"
        have "month_index c' = month_index c1 + int (n' - (n + 1))"
          using ih inc by simp
        with idx[OF ic] \<open>n + 1 \<le> n'\<close> show "month_index c' = month_index c + int (n' - n)"
          by simp
      qed
      ultimately show ?thesis by simp
    qed
  qed
qed

lemma end_date_loop_unrepayable:
  assumes "end_date_loop mp r b c n = Inr (Unrepayable b' n')"
  shows "n \<le> n' \<and> 0 < n' \<and> n' < max_months \<and> 0 < b' \<and> mp \<le> b' * r"
  using assms
proof (induction "max_months - n" arbitrary: b c n)
  case 0
  then have stop: "\<not> (0 < b \<and> n < max_months)" by simp
  from "0.prems" show ?case
    unfolding end_date_loop_stop[OF stop] by simp
next
  case (Suc k)
  show ?case
  proof (cases "0 < b \<and> n < max_months")
    case False
    from Suc.prems show ?thesis
      unfolding end_date_loop_stop[OF False] by simp
  next
    case True
    show ?thesis
    proof (cases "mp \<le> b * r \<and> 0 < n")
      case det: True
      from Suc.prems show ?thesis
        unfolding end_date_loop_detect[of b n mp r c] using True det
        by (simp add: end_date_loop_detect)
    next
      case nodet: False
      have step: "(case increment_month c of
                     Inl e \<Rightarrow> Inl e
                   | Inr c1 \<Rightarrow> end_date_loop mp r (max 0 (py_round (b - (mp - b * r)) 2)) c1 (n + 1))
                  = Inr (Unrepayable b' n')"
        using end_date_loop_step[of b n mp r c] True nodet Suc.prems by simp
      then obtain c1 where
        rest: "end_date_loop mp r (max 0 (py_round (b - (mp - b * r)) 2)) c1 (n + 1)
                     = Inr (Unrepayable b' n')"
        by (cases "increment_month c") simp_all
      have k: "k = max_months - (n + 1)" using Suc.hyps(2) by simp
      from Suc.hyps(1)[OF k rest] show ?thesis by simp
    qed
  qed
qed

lemma end_date_loop_balances:
  assumes "end_date_loop mp r b c n = Inr (Loop_done b' c' n')"
  shows "b' = (next_balance mp r ^^ (n' - n)) b
       \<and> (\<forall>k < n' - n. 0 < (next_balance mp r ^^ k) b)"
  using assms
proof (induction "max_months - n" arbitrary: b c n)
  case 0
  then have stop: "\<not> (0 < b \<and> n < max_months)" by simp
  from "0.prems" show ?case
    unfolding end_date_loop_stop[OF stop] by simp
next
  case (Suc k)
  show ?case
  proof (cases "0 < b \<and> n < max_months")
    case False
    from Suc.prems show ?thesis
      unfolding end_date_loop_stop[OF False] by simp
  next
    case True
    show ?thesis
    proof (cases "mp \<le> b * r \<and> 0 < n")
      case det: True
      from Suc.prems show ?thesis
        using True det by (simp add: end_date_loop_detect)
    next
      case nodet: False
      obtain c1 where
        rest: "end_date_loop mp r (next_balance mp r b) c1 (n + 1) = Inr (Loop_done b' c' n')"
      proof (cases "increment_month c")
        case (Inl e)
        have "end_date_loop mp r b c n = Inl e"
          using end_date_loop_raise[OF _ _ nodet Inl] True by simp
        with Suc.prems show ?thesis by simp
      next
        case (Inr c1)
        have "end_date_loop mp r b c n = end_date_loop mp r (next_balance mp r b) c1 (n + 1)"
          using end_date_loop_next[OF _ _ nodet Inr] True by simp
        with Suc.prems that[of c1] show ?thesis by simp
      qed
      have k: "k = max_months - (n + 1)" using Suc.hyps(2) by simp
      note ih = Suc.hyps(1)[OF k rest]
      have le: "n + 1 \<le> n'" using end_date_loop_done[OF rest] by simp
      then have d: "n' - n = Suc (n' - (n + 1))" by simp
      have "b' = (next_balance mp r ^^ (n' - n)) b"
        using ih unfolding d by (simp add: funpow_swap1)
      moreover have "\<forall>j < n' - n. 0 < (next_balance mp r ^^ j) b"
      proof (intro allI impI)
        fix j assume j: "j < n' - n"
        show "0 < (next_balance mp r ^^ j) b"
        proof (cases j)
          case 0
          with True show ?thesis by simp
        next
          case (Suc i)
          with j d have "i < n' - (n + 1)" by simp
          with ih have "0 < (next_balance mp r ^^ i) (next_balance mp r b)" by simp
          then show ?thesis unfolding Suc by (simp add: funpow_swap1)
        qed
      qed
      ultimately show ?thesis by simp
    qed
  qed
qed

lemma end_date_loop_any_date:
  assumes "end_date_loop mp r b c n = Inr (Loop_done b' c' n')"
    and "in_calendar d" and "month_index d + int (n' - n) \<le> 120000"
  shows "\<exists>d'. end_date_loop mp r b d n = Inr (Loop_done b' d' n')
           \<and> in_calendar d' \<and> month_index d' = month_index d + int (n' - n)"
  using assms
proof (induction "max_months - n" arbitrary: b c d n)
  case 0
  then have stop: "\<not> (0 < b \<and> n < max_months)" by simp
  from "0.prems" show ?case
    unfolding end_date_loop_stop[OF stop] by simp
next
  case (Suc k)
  show ?case
  proof (cases "0 < b \<and> n < max_months")
    case False
    from Suc.prems show ?thesis
      unfolding end_date_loop_stop[OF False] by simp
  next
    case True
    show ?thesis
    proof (cases "mp \<le> b * r \<and> 0 < n")
      case det: True
      from Suc.prems(1) show ?thesis
        using True det by (simp add: end_date_loop_detect)
    next
      case nodet: False
      obtain c1 where
        rest: "end_date_loop mp r (next_balance mp r b) c1 (n + 1) = Inr (Loop_done b' c' n')"
      proof (cases "increment_month c")
        case (Inl e)
        have "end_date_loop mp r b c n = Inl e"
          using end_date_loop_raise[OF _ _ nodet Inl] True by simp
        with Suc.prems(1) show ?thesis by simp
      next
        case (Inr c1)
        have "end_date_loop mp r b c n = end_date_loop mp r (next_balance mp r b) c1 (n + 1)"
          using end_date_loop_next[OF _ _ nodet Inr] True by simp
        with Suc.prems(1) that[of c1] show ?thesis by simp
      qed
      have le: "n + 1 \<le> n'" using end_date_loop_done[OF rest] by simp
      with Suc.prems(3) have "month_index d < 120000" by simp
      then obtain d1 where d1: "increment_month d = Inr d1"
        using increment_month_succeeds[OF Suc.prems(2)] by blast
      have cal1: "in_calendar d1" by (rule increment_month_Inr(1)[OF d1])
      have idx: "month_index d1 = month_index d + 1"
        by (rule increment_month_index[OF d1 Suc.prems(2)])
      have room: "month_index d1 + int (n' - (n + 1)) \<le> 120000"
        using idx le Suc.prems(3) by simp
      have k: "k = max_months - (n + 1)" using Suc.hyps(2) by simp
      from Suc.hyps(1)[OF k rest cal1 room] obtain d' where
        d': "end_date_loop mp r (next_balance mp r b) d1 (n + 1) = Inr (Loop_done b' d' n')"
        "in_calendar d'" "month_index d' = month_index d1 + int (n' - (n + 1))"
        by blast
      have "end_date_loop mp r b d n = end_date_loop mp r (next_balance mp r b) d1 (n + 1)"
        using end_date_loop_next[OF _ _ nodet d1] True by simp
      with d' idx le show ?thesis by simp
    qed
  qed
qed

lemma slow_payoff_hits_cap:
  assumes r: "0 \<le> r" and pos: "0 < mp" and mp: "B * r + 1 / 200 \<le> mp"
    and big: "(mp + 1 / 200) * 1200 < B"
    and inv: "b \<le> B" "B - (mp + 1 / 200) * real n \<le> b" and n: "n \<le> 1200"
    and cal: "in_calendar c" "month_index c + int (1200 - n) \<le> 120000"
  shows "\<exists>b' c'. end_date_loop mp r b c n = Inr (Loop_done b' c' 1200) \<and> 0 < b'"
  using inv n cal
proof (induction "1200 - n" arbitrary: b c n)
  case 0
  then have n: "n = 1200" by simp
  then have "\<not> (0 < b \<and> n < max_months)" by (simp add: max_months_def)
  then have "end_date_loop mp r b c n = Inr (Loop_done b c n)"
    by (rule end_date_loop_stop)
  moreover have "0 < b" using "0.prems"(2) big n by simp
  ultimately show ?case using n by simp
next
  case (Suc k)
  then have lt: "n < 1200" by simp
  have Bpos: "0 < B" using big pos by simp
  have "(mp + 1 / 200) * real n \<le> (mp + 1 / 200) * 1200"
    using lt pos by (intro mult_left_mono) simp_all
  with Suc.prems(2) big have bpos: "0 < b" by linarith
  have br: "b * r \<le> B * r" using Suc.prems(1) r by (rule mult_right_mono)
  with mp have nodet: "\<not> (mp \<le> b * r \<and> 0 < n)" by linarith
  define x where "x = b - (mp - b * r)"
  define b2 where "b2 = max 0 (py_round x 2)"
  have err: "\<bar>py_round x 2 - x\<bar> \<le> 1 / 200"
    using py_round_error[of x 2] by simp
  have e1: "x - 1 / 200 \<le> py_round x 2" and e2: "py_round x 2 \<le> x + 1 / 200"
    using err by linarith+
  have br0: "0 \<le> b * r" using bpos r by simp
  have dist: "(mp + 1 / 200) * real (n + 1) = (mp + 1 / 200) * real n + (mp + 1 / 200)"
    by (simp add: algebra_simps)
  have "py_round x 2 \<le> b2" unfolding b2_def by simp
  with e1 br0 Suc.prems(2) have lo: "B - (mp + 1 / 200) * real (n + 1) \<le> b2"
    unfolding dist x_def by linarith
  have "py_round x 2 \<le> B"
    using e2 br mp Suc.prems(1) unfolding x_def by linarith
  with Bpos have hi: "b2 \<le> B" unfolding b2_def by simp
  from Suc.prems(4,5) lt have "month_index c < 120000" by linarith
  then obtain c1 where c1: "increment_month c = Inr c1"
    using increment_month_succeeds[OF Suc.prems(4)] by blast
  have cal1: "in_calendar c1" by (rule increment_month_Inr(1)[OF c1])
  have idx: "month_index c1 + int (1200 - (n + 1)) \<le> 120000"
    using increment_month_index[OF c1 Suc.prems(4)] Suc.prems(5) lt by simp
  have k: "k = 1200 - (n + 1)" using Suc.hyps(2) by simp
  have "end_date_loop mp r b c n = end_date_loop mp r b2 c1 (n + 1)"
    using end_date_loop_step[of b n mp r c] bpos lt nodet c1
    by (simp add: max_months_def b2_def x_def)
  moreover have "\<exists>b' c'. end_date_loop mp r b2 c1 (n + 1) = Inr (Loop_done b' c' 1200) \<and> 0 < b'"
    using Suc.hyps(1)[OF k hi lo _ cal1 idx] lt by simp
  ultimately show ?case by simp
qed

lemma calculate_end_date_Some:
  assumes "calculate_end_date today b mp rate = Inr (Some D)" and "0 < b"
    and "in_calendar today"
  shows "\<exists>n c. end_date_loop mp ((rate / 100) / 12) b today 0 = Inr (Loop_done 0 D n)
           \<and> 0 < n \<and> n < max_months \<and> in_calendar D \<and> day D = 1
           \<and> month_index D = month_index today + int n
           \<and> increment_month today = Inr c
           \<and> (\<forall>k<n. 0 < (next_balance mp ((rate / 100) / 12) ^^ k) b)
           \<and> (next_balance mp ((rate / 100) / 12) ^^ n) b = 0"
proof -
  define r where "r = (rate / 100) / 12"
  from assms(1) have mp: "0 < mp"
    by (auto simp: calculate_end_date_def split: if_splits)
  with assms(1) obtain b' n where
    L: "end_date_loop mp r b today 0 = Inr (Loop_done b' D n)" and n: "n < max_months"
    unfolding calculate_end_date_def Let_def r_def
    by (auto split: if_splits sum.splits sim_exit.splits)
  note d = end_date_loop_done[OF L]
  note bl = end_date_loop_balances[OF L]
  from d n assms(2) have b': "b' = 0" by simp
  have npos: "0 < n"
  proof (rule ccontr)
    assume "\<not> 0 < n"
    with d have "b' = b" by simp
    with b' assms(2) show False by simp
  qed
  have nodet: "\<not> (mp \<le> b * r \<and> 0 < (0::nat))" by simp
  have m0: "0 < max_months" by (simp add: max_months_def)
  obtain c where c: "increment_month today = Inr c"
  proof (cases "increment_month today")
    case (Inl e)
    from end_date_loop_raise[OF assms(2) m0 nodet Inl] L show ?thesis by simp
  next
    case (Inr c)
    then show ?thesis by (rule that)
  qed
  from d npos assms(3) have "in_calendar D" "day D = 1"
    "month_index D = month_index today + int n" by simp_all
  with L b' npos n c bl show ?thesis unfolding r_def by auto
qed

section \<open>The loop of the rate solver\<close>

lemma rate_loop_exits:
  assumes "i \<le> 300"
  shows "iterations (rate_loop today b mp e i lo hi) \<le> 300
       \<and> i \<le> iterations (rate_loop today b mp e i lo hi)
       \<and> (\<forall>n. rate_loop today b mp e i lo hi = Exhausted n \<longrightarrow> n = 300)"
  using assms
proof (induction "300 - i" arbitrary: i lo hi)
  case 0
  then have "\<not> i < 300" by simp
  then have "rate_loop today b mp e i lo hi = Exhausted i"
    by (subst rate_loop.simps) simp
  with 0 show ?case by (simp add: iterations_def)
next
  case (Suc k)
  then have lt: "i < 300" by simp
  have k: "k = 300 - (i + 1)" "i + 1 \<le> 300" using Suc.hyps(2) by simp_all
  note ih = Suc.hyps(1)[OF k]
  show ?case
  proof (cases "calculate_monthly_payment today b ((lo + hi) / 2) e")
    case None
    with lt have "rate_loop today b mp e i lo hi = No_estimate (i + 1)"
      by (subst rate_loop.simps) (simp add: Let_def)
    with lt show ?thesis by (simp add: iterations_def)
  next
    case (Some est)
    show ?thesis
    proof (cases "\<bar>est - mp\<bar> < 0.01")
      case True
      with lt Some have "rate_loop today b mp e i lo hi = Converged (py_round ((lo + hi) / 2) 4) (i + 1)"
        by (subst rate_loop.simps) (simp add: Let_def)
      with lt show ?thesis by (simp add: iterations_def)
    next
      case False
      with lt Some have "rate_loop today b mp e i lo hi =
          (if mp < est then rate_loop today b mp e (i + 1) lo ((lo + hi) / 2)
           else rate_loop today b mp e (i + 1) ((lo + hi) / 2) hi)"
        by (subst rate_loop.simps) (simp add: Let_def)
      then show ?thesis
        using ih[of lo "(lo + hi) / 2"] ih[of "(lo + hi) / 2" hi]
        by (cases "mp < est") simp_all
    qed
  qed
qed

lemma rate_loop_converged:
  assumes "rate_loop today b mp e i lo hi = Converged r n" and "lo < hi"
  shows "\<exists>mid est. lo < mid \<and> mid < hi \<and> r = py_round mid 4
           \<and> calculate_monthly_payment today b mid e = Some est \<and> \<bar>est - mp\<bar> < 0.01"
  using assms
proof (induction "300 - i" arbitrary: i lo hi)
  case 0
  then have "\<not> i < 300" by simp
  then have "rate_loop today b mp e i lo hi = Exhausted i"
    by (subst rate_loop.simps) simp
  with "0.prems" show ?case by simp
next
  case (Suc k)
  then have lt: "i < 300" by simp
  have k: "k = 300 - (i + 1)" using Suc.hyps(2) by simp
  define mid where "mid = (lo + hi) / 2"
  have mid: "lo < mid" "mid < hi" using Suc.prems(2) by (simp_all add: mid_def)
  show ?case
  proof (cases "calculate_monthly_payment today b mid e")
    case None
    with lt have "rate_loop today b mp e i lo hi = No_estimate (i + 1)"
      unfolding mid_def by (subst rate_loop.simps) (simp add: Let_def)
    with Suc.prems show ?thesis by simp
  next
    case (Some est)
    show ?thesis
    proof (cases "\<bar>est - mp\<bar> < 0.01")
      case True
      with lt Some have "rate_loop today b mp e i lo hi = Converged (py_round mid 4) (i + 1)"
        unfolding mid_def by (subst rate_loop.simps) (simp add: Let_def)
      with Suc.prems have "r = py_round mid 4" by simp
      with mid Some True show ?thesis by blast
    next
      case False
      with lt Some have unf: "rate_loop today b mp e i lo hi =
          (if mp < est then rate_loop today b mp e (i + 1) lo mid
           else rate_loop today b mp e (i + 1) mid hi)"
        unfolding mid_def by (subst rate_loop.simps) (simp add: Let_def)
      show ?thesis
      proof (cases "mp < est")
        case True
        with unf Suc.prems have "rate_loop today b mp e (i + 1) lo mid = Converged r n" by simp
        from Suc.hyps(1)[OF k this mid(1)] obtain m est' where
          "lo < m" "m < mid" "r = py_round m 4"
          "calculate_monthly_payment today b m e = Some est'" "\<bar>est' - mp\<bar> < 0.01"
          by blast
        moreover from this mid have "m < hi" by linarith
        ultimately show ?thesis by blast
      next
        case False
        with unf Suc.prems have "rate_loop today b mp e (i + 1) mid hi = Converged r n" by simp
        from Suc.hyps(1)[OF k this mid(2)] obtain m est' where
          "mid < m" "m < hi" "r = py_round m 4"
          "calculate_monthly_payment today b m e = Some est'" "\<bar>est' - mp\<bar> < 0.01"
          by blast
        moreover from this mid have "lo < m" by linarith
        ultimately show ?thesis by blast
      qed
    qed
  qed
qed

lemma calculate_interest_rate_Some:
  assumes "calculate_interest_rate today b mp e = Inr (Some r)"
  shows "\<exists>n. rate_loop today b mp e 0 0.0001 100.0 = Converged r n"
proof -
  from assms show ?thesis
    unfolding calculate_interest_rate_def Let_def py_div_def
    by (auto split: if_splits rate_exit.splits)
qed

lemma rate_loop_never_converges:
  assumes "i \<le> 300" and "lo < hi"
    and "\<forall>mid. lo < mid \<and> mid < hi \<longrightarrow>
           (\<exists>est. calculate_monthly_payment today b mid e = Some est \<and> est + 1 / 100 \<le> mp)"
  shows "rate_loop today b mp e i lo hi = Exhausted 300"
  using assms
proof (induction "300 - i" arbitrary: i lo hi)
  case 0
  then have "\<not> i < 300" and "i = 300" by simp_all
  then show ?case by (subst rate_loop.simps) simp
next
  case (Suc k)
  then have lt: "i < 300" by simp
  have k: "k = 300 - (i + 1)" "i + 1 \<le> 300" using Suc.hyps(2) by simp_all
  define mid where "mid = (lo + hi) / 2"
  have mid: "lo < mid" "mid < hi" using Suc.prems(2) by (simp_all add: mid_def)
  with Suc.prems(3) obtain est where
    est: "calculate_monthly_payment today b mid e = Some est" "est + 1 / 100 \<le> mp"
    by blast
  then have far: "\<not> \<bar>est - mp\<bar> < 0.01" and below: "\<not> mp < est" by simp_all
  have unf: "rate_loop today b mp e i lo hi = rate_loop today b mp e (i + 1) mid hi"
    using lt est(1) far below unfolding mid_def
    by (subst rate_loop.simps) (simp add: Let_def)
  have "\<forall>m. mid < m \<and> m < hi \<longrightarrow>
           (\<exists>est. calculate_monthly_payment today b m e = Some est \<and> est + 1 / 100 \<le> mp)"
    using Suc.prems(3) mid(1) by (meson less_trans)
  from Suc.hyps(1)[OF k mid(2) this] unf show ?case by simp
qed

lemma one_month_payment:
  assumes "months_until today e = 1" and "0 < rate"
  shows "calculate_monthly_payment today b rate e = Some (py_round (b + b * rate / 1200) 2)"
proof -
  define r where "r = rate / 100 / 12"
  have r: "0 < r" using assms(2) by (simp add: r_def)
  then have ne: "1 + r \<noteq> 0" "r \<noteq> 0" by simp_all
  have "1 - inverse (1 + r) = r / (1 + r)"
    using ne by (simp add: field_simps)
  then have "b * r / (1 - inverse (1 + r)) = b * (1 + r)"
    using ne by simp
  also have "\<dots> = b + b * rate / 1200" by (simp add: r_def algebra_simps)
  finally have v: "b * r / (1 - inverse (1 + r)) = b + b * rate / 1200" .
  have "annuity_payment b r 1 = Inr (b + b * rate / 1200)"
    using ne v by (simp add: annuity_payment_def py_pow_def py_div_def)
  then show ?thesis
    using assms(1) by (simp add: calculate_monthly_payment_def Let_def r_def)
qed

section \<open>The loop of the schedule generator\<close>

lemma breakdown_loop_stop:
  assumes "\<not> (0 < b \<and> date_le c D)"
  shows "breakdown_loop mp r D b c t res = Inr (res, t)"
proof -
  have c: "(0 < b \<and> date_le c D) = False" using assms by simp
  show ?thesis by (subst breakdown_loop.simps) (simp only: c if_False)
qed

lemma breakdown_loop_final:
  assumes "0 < b" and "date_le c D"
    and "(year c = year D \<and> month c = month D) \<or> b < mp"
  shows "breakdown_loop mp r D b c t res =
     Inr (res @ [\<lparr>row_date = c, row_payment = py_round (b + b * r) 2,
                   row_interest = py_round (b * r) 2, row_principal = py_round b 2,
                   row_balance = 0\<rparr>],
          t + py_round (b * r) 2)"
proof -
  have c: "(0 < b \<and> date_le c D) = True" using assms by simp
  have f: "((year c = year D \<and> month c = month D) \<or> b < mp) = True" using assms by simp
  have z: "max 0 (py_round 0 2) = (0::real)" by (simp add: py_round_zero)
  show ?thesis
    by (subst breakdown_loop.simps) (simp only: c f z Let_def if_True refl)
qed

lemma breakdown_loop_regular:
  assumes "0 < b" and "date_le c D"
    and "\<not> ((year c = year D \<and> month c = month D) \<or> b < mp)"
  shows "breakdown_loop mp r D b c t res =
     (if next_balance mp r b = 0
      then Inr (res @ [\<lparr>row_date = c, row_payment = py_round mp 2,
                         row_interest = py_round (b * r) 2,
                         row_principal = py_round (mp - b * r) 2,
                         row_balance = next_balance mp r b\<rparr>],
                t + py_round (b * r) 2)
      else (case increment_month c of
              Inl e \<Rightarrow> Inl e
            | Inr c' \<Rightarrow>
                breakdown_loop mp r D (next_balance mp r b) c' (t + py_round (b * r) 2)
                  (res @ [\<lparr>row_date = c, row_payment = py_round mp 2,
                            row_interest = py_round (b * r) 2,
                            row_principal = py_round (mp - b * r) 2,
                            row_balance = next_balance mp r b\<rparr>])))"
proof -
  have c: "(0 < b \<and> date_le c D) = True" using assms by simp
  have f: "((year c = year D \<and> month c = month D) \<or> b < mp) = False" using assms by simp
  show ?thesis
    by (subst breakdown_loop.simps) (simp only: c f Let_def if_True if_False next_balance_def)
qed

lemma regular_step_principal:
  assumes "0 < next_balance mp r b"
  shows "\<bar>py_round (mp - b * r) 2 - (b - next_balance mp r b)\<bar> \<le> 1 / 100"
proof -
  define x where "x = b - (mp - b * r)"
  from assms have nb: "next_balance mp r b = py_round x 2"
    unfolding next_balance_def x_def by (simp add: max_def split: if_splits)
  have "\<bar>py_round x 2 - x\<bar> \<le> 1 / 200" using py_round_error[of x 2] by simp
  moreover have "\<bar>py_round (mp - b * r) 2 - (mp - b * r)\<bar> \<le> 1 / 200"
    using py_round_error[of "mp - b * r" 2] by simp
  ultimately show ?thesis unfolding nb x_def by linarith
qed

lemma final_step_principal: "\<bar>py_round b 2 - b\<bar> \<le> 1 / 100"
  using py_round_error[of b 2] by simp

lemma breakdown_loop_rows:
  assumes "in_calendar c" and "day c = 1" and "in_calendar D" and "day D = 1"
    and "month_index c \<le> month_index D" and "0 < b"
  shows "\<exists>new total. breakdown_loop mp r D b c t res = Inr (res @ new, total)
      \<and> new \<noteq> [] \<and> int (length new) \<le> month_index D - month_index c + 1
      \<and> (\<forall>i<length new. in_calendar (row_date (new ! i)) \<and> day (row_date (new ! i)) = 1
             \<and> month_index (row_date (new ! i)) = month_index c + int i)
      \<and> row_balance (last new) = 0
      \<and> (\<forall>i. Suc i < length new \<longrightarrow>
             row_balance (new ! i) = (next_balance mp r ^^ Suc i) b \<and> 0 < row_balance (new ! i))
      \<and> ((\<forall>k. 0 < k \<and> int k \<le> month_index D - month_index c \<longrightarrow>
                0 < (next_balance mp r ^^ k) b)
           \<longrightarrow> \<bar>principal_total new - b\<bar> \<le> real (length new) / 100)
      \<and> total = t + sum_list (map row_interest new)
      \<and> ((\<forall>k. 0 < k \<and> int k \<le> month_index D - month_index c \<longrightarrow>
                0 < (next_balance mp r ^^ k) b)
           \<longrightarrow> int (length new) < month_index D - month_index c + 1
           \<longrightarrow> (next_balance mp r ^^ (length new - 1)) b < mp)"
  using assms
proof (induction "nat (month_index D - month_index c)" arbitrary: b c t res)
  case 0
  then have eq: "month_index c = month_index D" by simp
  then have ym: "year c = year D \<and> month c = month D"
    using month_index_eq_iff[OF "0.prems"(1,3)] by simp
  have le: "date_le c D"
    using date_le_index[OF "0.prems"(1,3)] "0.prems"(2,4,5) by simp
  let ?row = "\<lparr>row_date = c, row_payment = py_round (b + b * r) 2,
                row_interest = py_round (b * r) 2, row_principal = py_round b 2,
                row_balance = 0\<rparr>"
  have res: "breakdown_loop mp r D b c t res = Inr (res @ [?row], t + py_round (b * r) 2)"
    using breakdown_loop_final[OF "0.prems"(6) le] ym by simp
  show ?case
    apply (rule exI[of _ "[?row]"])
    apply (rule exI[of _ "t + py_round (b * r) 2"])
    using res eq "0.prems"(1,2) final_step_principal[of b]
    by (simp add: principal_total_def)
next
  case (Suc k)
  then have lt: "month_index c < month_index D" by linarith
  have le: "date_le c D"
    using date_le_index[OF Suc.prems(1,3)] Suc.prems(2,4,5) by simp
  have nym: "\<not> (year c = year D \<and> month c = month D)"
    using month_index_eq_iff[OF Suc.prems(1,3)] lt by simp
  show ?case
  proof (cases "b < mp")
    case True
    let ?row = "\<lparr>row_date = c, row_payment = py_round (b + b * r) 2,
                  row_interest = py_round (b * r) 2, row_principal = py_round b 2,
                  row_balance = 0\<rparr>"
    have res: "breakdown_loop mp r D b c t res = Inr (res @ [?row], t + py_round (b * r) 2)"
      using breakdown_loop_final[OF Suc.prems(6) le] True by simp
    show ?thesis
      apply (rule exI[of _ "[?row]"])
      apply (rule exI[of _ "t + py_round (b * r) 2"])
      using res lt Suc.prems(1,2) final_step_principal[of b] True
      by (simp add: principal_total_def)
  next
    case False
    then have mpb: "mp \<le> b" by simp
    have nf: "\<not> ((year c = year D \<and> month c = month D) \<or> b < mp)"
      using nym False by simp
    define b2 where "b2 = next_balance mp r b"
    define t' where "t' = t + py_round (b * r) 2"
    define row where "row = \<lparr>row_date = c, row_payment = py_round mp 2,
                         row_interest = py_round (b * r) 2,
                         row_principal = py_round (mp - b * r) 2,
                         row_balance = b2\<rparr>"
    note unf = breakdown_loop_regular[OF Suc.prems(6) le nf, of r t res,
        folded b2_def t'_def, folded row_def]
    have rowp: "0 < b2 \<Longrightarrow> \<bar>row_principal row - (b - b2)\<bar> \<le> 1 / 100"
      using regular_step_principal[of mp r b] by (simp add: row_def b2_def)
    show ?thesis
    proof (cases "b2 = 0")
      case True
      have 1: "breakdown_loop mp r D b c t res = Inr (res @ [row], t')"
        using unf True by simp
      have 2: "[row] \<noteq> []" by simp
      have 3: "int (length [row]) \<le> month_index D - month_index c + 1"
        using lt by simp
      have 4: "\<forall>i<length [row]. in_calendar (row_date ([row] ! i))
             \<and> day (row_date ([row] ! i)) = 1
             \<and> month_index (row_date ([row] ! i)) = month_index c + int i"
        using Suc.prems(1,2) by (simp add: row_def)
      have 5: "row_balance (last [row]) = 0" using True by (simp add: row_def)
      have 6: "\<forall>i. Suc i < length [row] \<longrightarrow>
             row_balance ([row] ! i) = (next_balance mp r ^^ Suc i) b
             \<and> 0 < row_balance ([row] ! i)"
        by simp
      have 7: "(\<forall>k. 0 < k \<and> int k \<le> month_index D - month_index c \<longrightarrow>
                0 < (next_balance mp r ^^ k) b)
           \<longrightarrow> \<bar>principal_total [row] - b\<bar> \<le> real (length [row]) / 100"
      proof (intro impI)
        assume "\<forall>k. 0 < k \<and> int k \<le> month_index D - month_index c \<longrightarrow>
                0 < (next_balance mp r ^^ k) b"
        from this[rule_format, of 1] lt have "0 < next_balance mp r b" by simp
        with True show "\<bar>principal_total [row] - b\<bar> \<le> real (length [row]) / 100"
          by (simp add: b2_def)
      qed
      have 8: "t' = t + sum_list (map row_interest [row])"
        by (simp add: t'_def row_def)
      have 9: "(\<forall>k. 0 < k \<and> int k \<le> month_index D - month_index c \<longrightarrow>
                0 < (next_balance mp r ^^ k) b)
           \<longrightarrow> int (length [row]) < month_index D - month_index c + 1
           \<longrightarrow> (next_balance mp r ^^ (length [row] - 1)) b < mp"
      proof (intro impI)
        assume "\<forall>k. 0 < k \<and> int k \<le> month_index D - month_index c \<longrightarrow>
                0 < (next_balance mp r ^^ k) b"
        from this[rule_format, of 1] lt have "0 < next_balance mp r b" by simp
        with True show "(next_balance mp r ^^ (length [row] - 1)) b < mp" by (simp add: b2_def)
      qed
      show ?thesis
        apply (rule exI[of _ "[row]"])
        apply (rule exI[of _ "t'"])
        using 1 2 3 4 5 6 7 8 9 by blast
    next
      case False
      have "0 \<le> b2" unfolding b2_def by (rule next_balance_nonneg)
      with False have b2pos: "0 < b2" by simp
      from lt month_index_bound[OF Suc.prems(3)] have "month_index c < 120000" by linarith
      then obtain c1 where c1: "increment_month c = Inr c1"
        using increment_month_succeeds[OF Suc.prems(1)] by blast
      have cal1: "in_calendar c1" "day c1 = 1" using increment_month_Inr[OF c1] by simp_all
      have idx1: "month_index c1 = month_index c + 1"
        by (rule increment_month_index[OF c1 Suc.prems(1)])
      have k: "k = nat (month_index D - month_index c1)" using Suc.hyps(2) idx1 by simp
      have le1: "month_index c1 \<le> month_index D" using idx1 lt by simp
      have step: "breakdown_loop mp r D b c t res = breakdown_loop mp r D b2 c1 t' (res @ [row])"
        using unf False c1 by simp
      from Suc.hyps(1)[OF k cal1 Suc.prems(3,4) le1 b2pos, of t' "res @ [row]"]
      obtain new' total where
        r1: "breakdown_loop mp r D b2 c1 t' (res @ [row]) = Inr ((res @ [row]) @ new', total)"
        and ne: "new' \<noteq> []"
        and len: "int (length new') \<le> month_index D - month_index c1 + 1"
        and dates: "\<forall>i<length new'. in_calendar (row_date (new' ! i))
             \<and> day (row_date (new' ! i)) = 1
             \<and> month_index (row_date (new' ! i)) = month_index c1 + int i"
        and lastb: "row_balance (last new') = 0"
        and bal: "\<forall>i. Suc i < length new' \<longrightarrow>
             row_balance (new' ! i) = (next_balance mp r ^^ Suc i) b2 \<and> 0 < row_balance (new' ! i)"
        and prin: "(\<forall>k. 0 < k \<and> int k \<le> month_index D - month_index c1 \<longrightarrow>
                0 < (next_balance mp r ^^ k) b2)
           \<longrightarrow> \<bar>principal_total new' - b2\<bar> \<le> real (length new') / 100"
        and tot: "total = t' + sum_list (map row_interest new')"
        and early: "(\<forall>k. 0 < k \<and> int k \<le> month_index D - month_index c1 \<longrightarrow>
                0 < (next_balance mp r ^^ k) b2)
           \<longrightarrow> int (length new') < month_index D - month_index c1 + 1
           \<longrightarrow> (next_balance mp r ^^ (length new' - 1)) b2 < mp"
        by blast
      let ?new = "row # new'"
      have 1: "breakdown_loop mp r D b c t res = Inr (res @ ?new, total)"
        using step r1 by simp
      have 2: "?new \<noteq> []" by simp
      have 3: "int (length ?new) \<le> month_index D - month_index c + 1"
        using len idx1 by simp
      have 4: "\<forall>i<length ?new. in_calendar (row_date (?new ! i))
             \<and> day (row_date (?new ! i)) = 1
             \<and> month_index (row_date (?new ! i)) = month_index c + int i"
      proof (intro allI impI)
        fix i assume i: "i < length ?new"
        show "in_calendar (row_date (?new ! i)) \<and> day (row_date (?new ! i)) = 1
             \<and> month_index (row_date (?new ! i)) = month_index c + int i"
        proof (cases i)
          case 0
          then show ?thesis using Suc.prems(1,2) by (simp add: row_def)
        next
          case (Suc j)
          with i have "j < length new'" by simp
          with dates idx1 show ?thesis unfolding Suc by simp
        qed
      qed
      have 5: "row_balance (last ?new) = 0" using lastb ne by simp
      have 6: "\<forall>i. Suc i < length ?new \<longrightarrow>
             row_balance (?new ! i) = (next_balance mp r ^^ Suc i) b \<and> 0 < row_balance (?new ! i)"
      proof (intro allI impI)
        fix i assume i: "Suc i < length ?new"
        show "row_balance (?new ! i) = (next_balance mp r ^^ Suc i) b \<and> 0 < row_balance (?new ! i)"
        proof (cases i)
          case 0
          then show ?thesis using b2pos by (simp add: row_def b2_def)
        next
          case (Suc j)
          with i have "Suc j < length new'" by simp
          from bal[rule_format, OF this]
          have "row_balance (new' ! j) = (next_balance mp r ^^ Suc j) b2"
            and "0 < row_balance (new' ! j)" by blast+
          then show ?thesis unfolding Suc b2_def by (simp add: funpow_swap1)
        qed
      qed
      have shift: "\<forall>k. 0 < k \<and> int k \<le> month_index D - month_index c1 \<longrightarrow>
                0 < (next_balance mp r ^^ k) b2"
        if pos: "\<forall>k. 0 < k \<and> int k \<le> month_index D - month_index c \<longrightarrow>
                0 < (next_balance mp r ^^ k) b"
      proof (intro allI impI)
        fix j assume "0 < j \<and> int j \<le> month_index D - month_index c1"
        then have "0 < Suc j \<and> int (Suc j) \<le> month_index D - month_index c" using idx1 by simp
        from pos[rule_format, OF this] show "0 < (next_balance mp r ^^ j) b2"
          by (simp add: b2_def funpow_swap1)
      qed
      have 7: "(\<forall>k. 0 < k \<and> int k \<le> month_index D - month_index c \<longrightarrow>
                0 < (next_balance mp r ^^ k) b)
           \<longrightarrow> \<bar>principal_total ?new - b\<bar> \<le> real (length ?new) / 100"
      proof (intro impI)
        assume pos: "\<forall>k. 0 < k \<and> int k \<le> month_index D - month_index c \<longrightarrow>
                0 < (next_balance mp r ^^ k) b"
        have "principal_total ?new = row_principal row + principal_total new'"
          by (simp add: principal_total_def)
        moreover have "\<bar>principal_total new' - b2\<bar> \<le> real (length new') / 100"
          using prin shift[OF pos] by blast
        moreover have "real (length ?new) / 100 = real (length new') / 100 + 1 / 100"
          by (simp add: field_simps)
        ultimately show "\<bar>principal_total ?new - b\<bar> \<le> real (length ?new) / 100"
          using rowp[OF b2pos] by linarith
      qed
      have 8: "total = t + sum_list (map row_interest ?new)"
        using tot by (simp add: t'_def row_def)
      have 9: "(\<forall>k. 0 < k \<and> int k \<le> month_index D - month_index c \<longrightarrow>
                0 < (next_balance mp r ^^ k) b)
           \<longrightarrow> int (length ?new) < month_index D - month_index c + 1
           \<longrightarrow> (next_balance mp r ^^ (length ?new - 1)) b < mp"
      proof (intro impI)
        assume pos: "\<forall>k. 0 < k \<and> int k \<le> month_index D - month_index c \<longrightarrow>
                0 < (next_balance mp r ^^ k) b"
          and short: "int (length ?new) < month_index D - month_index c + 1"
        have "\<forall>k. 0 < k \<and> int k \<le> month_index D - month_index c1 \<longrightarrow>
                0 < (next_balance mp r ^^ k) b2"
        proof (intro allI impI)
          fix j assume "0 < j \<and> int j \<le> month_index D - month_index c1"
          then have "0 < Suc j \<and> int (Suc j) \<le> month_index D - month_index c" using idx1 by simp
          from pos[rule_format, OF this] show "0 < (next_balance mp r ^^ j) b2"
            by (simp add: b2_def funpow_swap1)
        qed
        moreover have "int (length new') < month_index D - month_index c1 + 1"
          using short idx1 by simp
        ultimately have "(next_balance mp r ^^ (length new' - 1)) b2 < mp"
          using early by blast
        moreover obtain m where m: "length new' = Suc m" using ne by (cases new') simp_all
        ultimately show "(next_balance mp r ^^ (length ?new - 1)) b < mp"
          by (simp add: b2_def funpow_swap1)
      qed
      from 1 2 3 4 5 6 7 8 9 show ?thesis by blast
    qed
  qed
qed

lemma breakdown_loop_balances_nonneg:
  assumes "breakdown_loop mp r D b c t res = Inr (rows, ti)"
    and "\<forall>row\<in>set res. 0 \<le> row_balance row"
  shows "\<forall>row\<in>set rows. 0 \<le> row_balance row"
  using assms
proof (induction "months_left c" arbitrary: b c t res rule: less_induct)
  case less
  show ?case
  proof (cases "0 < b \<and> date_le c D")
    case False
    from less.prems show ?thesis
      unfolding breakdown_loop_stop[OF False] by simp
  next
    case True
    then have b: "0 < b" and le: "date_le c D" by simp_all
    show ?thesis
    proof (cases "(year c = year D \<and> month c = month D) \<or> b < mp")
      case fin: True
      from less.prems show ?thesis
        unfolding breakdown_loop_final[OF b le fin] by auto
    next
      case reg: False
      define row where "row = \<lparr>row_date = c, row_payment = py_round mp 2,
                         row_interest = py_round (b * r) 2,
                         row_principal = py_round (mp - b * r) 2,
                         row_balance = next_balance mp r b\<rparr>"
      note unf = breakdown_loop_regular[OF b le reg, of r t res, folded row_def]
      have acc: "\<forall>x\<in>set (res @ [row]). 0 \<le> row_balance x"
        using less.prems(2) by (simp add: row_def next_balance_nonneg)
      show ?thesis
      proof (cases "next_balance mp r b = 0")
        case True
        with unf less.prems(1) have "rows = res @ [row]" by simp
        with acc show ?thesis by simp
      next
        case False
        show ?thesis
        proof (cases "increment_month c")
          case (Inl e)
          with unf False less.prems(1) show ?thesis by simp
        next
          case (Inr c1)
          with unf False less.prems(1)
          have "breakdown_loop mp r D (next_balance mp r b) c1 (t + py_round (b * r) 2)
                  (res @ [row]) = Inr (rows, ti)" by simp
          from less.hyps[OF increment_month_left[OF Inr] this acc] show ?thesis .
        qed
      qed
    qed
  qed
qed

lemma schedule_of_end_date:
  assumes ok: "calculate_end_date today b mp rate = Inr (Some D)" and b: "0 < b"
    and cal: "in_calendar today"
  shows "\<exists>rows ti n. calculate_interest_breakdown today b mp rate e = Inr (Schedule rows ti)
      \<and> month_index D = month_index today + int n
      \<and> rows \<noteq> [] \<and> length rows \<le> n
      \<and> (\<forall>i<length rows. in_calendar (row_date (rows ! i)) \<and> day (row_date (rows ! i)) = 1
             \<and> month_index (row_date (rows ! i)) = month_index today + 1 + int i)
      \<and> row_balance (last rows) = 0
      \<and> (\<forall>i. Suc i < length rows \<longrightarrow>
             row_balance (rows ! i) = (next_balance mp ((rate / 100) / 12) ^^ Suc i) b
             \<and> 0 < row_balance (rows ! i))
      \<and> \<bar>principal_total rows - b\<bar> \<le> real (length rows) / 100
      \<and> ti = py_round (sum_list (map row_interest rows)) 2
      \<and> (length rows < n \<longrightarrow>
             (next_balance mp ((rate / 100) / 12) ^^ (length rows - 1)) b < mp)"
proof -
  define r where "r = (rate / 100) / 12"
  from calculate_end_date_Some[OF ok b cal] obtain n c where
    n: "0 < n" "in_calendar D" "day D = 1" "month_index D = month_index today + int n"
    and c: "increment_month today = Inr c"
    and pos: "\<forall>k<n. 0 < (next_balance mp r ^^ k) b"
    unfolding r_def by blast
  have calc: "in_calendar c" "day c = 1" using increment_month_Inr[OF c] by simp_all
  have idx: "month_index c = month_index today + 1"
    by (rule increment_month_index[OF c cal])
  have le: "month_index c \<le> month_index D" using idx n(1,4) by simp
  from breakdown_loop_rows[OF calc n(2,3) le b, of mp r 0 "[]"]
  obtain rows tot where
    res: "breakdown_loop mp r D b c 0 [] = Inr (rows, tot)"
    and ne: "rows \<noteq> []"
    and len: "int (length rows) \<le> month_index D - month_index c + 1"
    and dates: "\<forall>i<length rows. in_calendar (row_date (rows ! i))
             \<and> day (row_date (rows ! i)) = 1
             \<and> month_index (row_date (rows ! i)) = month_index c + int i"
    and lastb: "row_balance (last rows) = 0"
    and bal: "\<forall>i. Suc i < length rows \<longrightarrow>
             row_balance (rows ! i) = (next_balance mp r ^^ Suc i) b \<and> 0 < row_balance (rows ! i)"
    and prin: "(\<forall>k. 0 < k \<and> int k \<le> month_index D - month_index c \<longrightarrow>
                0 < (next_balance mp r ^^ k) b)
           \<longrightarrow> \<bar>principal_total rows - b\<bar> \<le> real (length rows) / 100"
    and tot: "tot = 0 + sum_list (map row_interest rows)"
    and early: "(\<forall>k. 0 < k \<and> int k \<le> month_index D - month_index c \<longrightarrow>
                0 < (next_balance mp r ^^ k) b)
           \<longrightarrow> int (length rows) < month_index D - month_index c + 1
           \<longrightarrow> (next_balance mp r ^^ (length rows - 1)) b < mp"
    by auto
  have 1: "calculate_interest_breakdown today b mp rate e
             = Inr (Schedule rows (py_round (sum_list (map row_interest rows)) 2))"
    using c ok res tot by (simp add: calculate_interest_breakdown_def Let_def r_def)
  have 2: "length rows \<le> n" using len idx n(4) by simp
  have 3: "\<forall>i<length rows. in_calendar (row_date (rows ! i)) \<and> day (row_date (rows ! i)) = 1
             \<and> month_index (row_date (rows ! i)) = month_index today + 1 + int i"
    using dates idx by simp
  have allpos: "\<forall>k. 0 < k \<and> int k \<le> month_index D - month_index c \<longrightarrow>
                0 < (next_balance mp r ^^ k) b"
  proof (intro allI impI)
    fix k assume "0 < k \<and> int k \<le> month_index D - month_index c"
    then have "k < n" using idx n(4) by simp
    with pos show "0 < (next_balance mp r ^^ k) b" by simp
  qed
  with prin have 4: "\<bar>principal_total rows - b\<bar> \<le> real (length rows) / 100"
    by blast
  from allpos early have 5: "length rows < n \<longrightarrow> (next_balance mp r ^^ (length rows - 1)) b < mp"
    using idx n(4) by simp
  from 1 n(4) ne 2 3 lastb bal 4 5 show ?thesis unfolding r_def by blast
qed

section \<open>The payment as a function of the rate, and the bisection\<close>













section \<open>Runs on concrete inputs\<close>

lemmas run_defs = calculate_interest_breakdown_def calculate_end_date_def
  end_date_loop.simps breakdown_loop.simps date_le_def py_round_def Let_def
  increment_month_def first_of_month_def max_months_def

lemma run_100_60:
  "calculate_end_date \<lparr>year = 2025, month = 3, day = 14\<rparr> 100 60 12
     = Inr (Some \<lparr>year = 2025, month = 5, day = 1\<rparr>)"
  "end_date_loop 60 ((12 / 100) / 12) 100 \<lparr>year = 2025, month = 3, day = 14\<rparr> 0
     = Inr (Loop_done 0 \<lparr>year = 2025, month = 5, day = 1\<rparr> 2)"
  "calculate_interest_breakdown \<lparr>year = 2025, month = 3, day = 14\<rparr> 100 60 12
       \<lparr>year = 2026, month = 3, day = 14\<rparr>
     = Inr (Schedule
         [\<lparr>row_date = \<lparr>year = 2025, month = 4, day = 1\<rparr>, row_payment = 60,
            row_interest = 1, row_principal = 59, row_balance = 41\<rparr>,
          \<lparr>row_date = \<lparr>year = 2025, month = 5, day = 1\<rparr>, row_payment = 41.41,
            row_interest = 0.41, row_principal = 41, row_balance = 0\<rparr>] 1.41)"
  by (simp_all add: run_defs)

lemma run_100_100_5:
  "calculate_end_date \<lparr>year = 2025, month = 3, day = 14\<rparr> 100 100.5 12
     = Inr (Some \<lparr>year = 2025, month = 5, day = 1\<rparr>)"
  "calculate_interest_breakdown \<lparr>year = 2025, month = 3, day = 14\<rparr> 100 100.5 12
       \<lparr>year = 2026, month = 3, day = 14\<rparr>
     = Inr (Schedule
         [\<lparr>row_date = \<lparr>year = 2025, month = 4, day = 1\<rparr>, row_payment = 101,
            row_interest = 1, row_principal = 100, row_balance = 0\<rparr>] 1)"
  by (simp_all add: run_defs)

lemmas payment_defs = calculate_monthly_payment_def annuity_payment_def py_div_def py_pow_def
  py_round_def months_until_def Let_def power_int_minus power_divide

lemmas step_defs = max_months_def increment_month_def first_of_month_def next_balance_def
  py_round_def Let_def

lemma end_date_loop_run_step:
  assumes "0 < b" and "n < max_months" and "\<not> (mp \<le> b * r \<and> 0 < n)"
    and "increment_month c = Inr c1" and "next_balance mp r b = b'" and "n' = n + 1"
  shows "end_date_loop mp r b c n = end_date_loop mp r b' c1 n'"
  using end_date_loop_next[OF assms(1-4)] assms(5,6) by simp






lemma payoff_run_24000:
  "end_date_loop (106369 / 100) (1 / 200) 24000 \<lparr>year = 2025, month = 3, day = 14\<rparr> 0
     = Inr (Loop_done 0 \<lparr>year = 2027, month = 4, day = 1\<rparr> 25)"
proof -
  have "end_date_loop (106369 / 100) (1 / 200) 24000 \<lparr>year = 2025, month = 3, day = 14\<rparr> 0
    = end_date_loop (106369 / 100) (1 / 200) (2305631 / 100) \<lparr>year = 2025, month = 4, day = 1\<rparr> 1"
    by (rule end_date_loop_run_step) (simp_all add: step_defs)
  also have "\<dots>
    = end_date_loop (106369 / 100) (1 / 200) (221079 / 10) \<lparr>year = 2025, month = 5, day = 1\<rparr> 2"
    by (rule end_date_loop_run_step) (simp_all add: step_defs)
  also have "\<dots>
    = end_date_loop (106369 / 100) (1 / 200) (84619 / 4) \<lparr>year = 2025, month = 6, day = 1\<rparr> 3"
    by (rule end_date_loop_run_step) (simp_all add: step_defs)
  also have "\<dots>
    = end_date_loop (106369 / 100) (1 / 200) (2019683 / 100) \<lparr>year = 2025, month = 7, day = 1\<rparr> 4"
    by (rule end_date_loop_run_step) (simp_all add: step_defs)
  also have "\<dots>
    = end_date_loop (106369 / 100) (1 / 200) (480853 / 25) \<lparr>year = 2025, month = 8, day = 1\<rparr> 5"
    by (rule end_date_loop_run_step) (simp_all add: step_defs)
  also have "\<dots>
    = end_date_loop (106369 / 100) (1 / 200) (91333 / 5) \<lparr>year = 2025, month = 9, day = 1\<rparr> 6"
    by (rule end_date_loop_run_step) (simp_all add: step_defs)
  also have "\<dots>
    = end_date_loop (106369 / 100) (1 / 200) (432356 / 25) \<lparr>year = 2025, month = 10, day = 1\<rparr> 7"
    by (rule end_date_loop_run_step) (simp_all add: step_defs)
  also have "\<dots>
    = end_date_loop (106369 / 100) (1 / 200) (815851 / 50) \<lparr>year = 2025, month = 11, day = 1\<rparr> 8"
    by (rule end_date_loop_run_step) (simp_all add: step_defs)
  also have "\<dots>
    = end_date_loop (106369 / 100) (1 / 200) (383373 / 25) \<lparr>year = 2025, month = 12, day = 1\<rparr> 9"
    by (rule end_date_loop_run_step) (simp_all add: step_defs)
  also have "\<dots>
    = end_date_loop (106369 / 100) (1 / 200) (143479 / 10) \<lparr>year = 2026, month = 1, day = 1\<rparr> 10"
    by (rule end_date_loop_run_step) (simp_all add: step_defs)
  also have "\<dots>
    = end_date_loop (106369 / 100) (1 / 200) (267119 / 20) \<lparr>year = 2026, month = 2, day = 1\<rparr> 11"
    by (rule end_date_loop_run_step) (simp_all add: step_defs)
  also have "\<dots>
    = end_date_loop (106369 / 100) (1 / 200) (308976 / 25) \<lparr>year = 2026, month = 3, day = 1\<rparr> 12"
    by (rule end_date_loop_run_step) (simp_all add: step_defs)
  also have "\<dots>
    = end_date_loop (106369 / 100) (1 / 200) (227143 / 20) \<lparr>year = 2026, month = 4, day = 1\<rparr> 13"
    by (rule end_date_loop_run_step) (simp_all add: step_defs)
  also have "\<dots>
    = end_date_loop (106369 / 100) (1 / 200) (41401 / 4) \<lparr>year = 2026, month = 5, day = 1\<rparr> 14"
    by (rule end_date_loop_run_step) (simp_all add: step_defs)
  also have "\<dots>
    = end_date_loop (106369 / 100) (1 / 200) (933831 / 100) \<lparr>year = 2026, month = 6, day = 1\<rparr> 15"
    by (rule end_date_loop_run_step) (simp_all add: step_defs)
  also have "\<dots>
    = end_date_loop (106369 / 100) (1 / 200) (832131 / 100) \<lparr>year = 2026, month = 7, day = 1\<rparr> 16"
    by (rule end_date_loop_run_step) (simp_all add: step_defs)
  also have "\<dots>
    = end_date_loop (106369 / 100) (1 / 200) (729923 / 100) \<lparr>year = 2026, month = 8, day = 1\<rparr> 17"
    by (rule end_date_loop_run_step) (simp_all add: step_defs)
  also have "\<dots>
    = end_date_loop (106369 / 100) (1 / 200) (156801 / 25) \<lparr>year = 2026, month = 9, day = 1\<rparr> 18"
    by (rule end_date_loop_run_step) (simp_all add: step_defs)
  also have "\<dots>
    = end_date_loop (106369 / 100) (1 / 200) (523971 / 100) \<lparr>year = 2026, month = 10, day = 1\<rparr> 19"
    by (rule end_date_loop_run_step) (simp_all add: step_defs)
  also have "\<dots>
    = end_date_loop (106369 / 100) (1 / 200) (210111 / 50) \<lparr>year = 2026, month = 11, day = 1\<rparr> 20"
    by (rule end_date_loop_run_step) (simp_all add: step_defs)
  also have "\<dots>
    = end_date_loop (106369 / 100) (1 / 200) (157977 / 50) \<lparr>year = 2026, month = 12, day = 1\<rparr> 21"
    by (rule end_date_loop_run_step) (simp_all add: step_defs)
  also have "\<dots>
    = end_date_loop (106369 / 100) (1 / 200) (42233 / 20) \<lparr>year = 2027, month = 1, day = 1\<rparr> 22"
    by (rule end_date_loop_run_step) (simp_all add: step_defs)
  also have "\<dots>
    = end_date_loop (106369 / 100) (1 / 200) (26463 / 25) \<lparr>year = 2027, month = 2, day = 1\<rparr> 23"
    by (rule end_date_loop_run_step) (simp_all add: step_defs)
  also have "\<dots>
    = end_date_loop (106369 / 100) (1 / 200) (3 / 25) \<lparr>year = 2027, month = 3, day = 1\<rparr> 24"
    by (rule end_date_loop_run_step) (simp_all add: step_defs)
  also have "\<dots>
    = end_date_loop (106369 / 100) (1 / 200) 0 \<lparr>year = 2027, month = 4, day = 1\<rparr> 25"
    by (rule end_date_loop_run_step) (simp_all add: step_defs)
  also have "\<dots> = Inr (Loop_done 0 \<lparr>year = 2027, month = 4, day = 1\<rparr> 25)"
    by (rule end_date_loop_stop) simp
  finally show ?thesis .
qed

section \<open>The claims\<close>

text \<open>
  C1, as the claim states it, fails. The solved payment for 24000 at 6 percent over 24 months
  is 1063.69, rounded down from 1063.6947; after 24 steps of the simulator 0.12 is still
  owed, so the loop takes a 25th step and the payoff date is one month after the target.
\<close>

theorem solver_simulator_counterexample:
  "calculate_monthly_payment \<lparr>year = 2025, month = 3, day = 14\<rparr> 24000 6
       \<lparr>year = 2027, month = 3, day = 14\<rparr> = Some 1063.69
   \<and> end_date_loop 1063.69 ((6 / 100) / 12) 24000 \<lparr>year = 2025, month = 3, day = 14\<rparr> 0
       = Inr (Loop_done 0 \<lparr>year = 2027, month = 4, day = 1\<rparr> 25)
   \<and> calculate_end_date \<lparr>year = 2025, month = 3, day = 14\<rparr> 24000 1063.69 6
       = Inr (Some \<lparr>year = 2027, month = 4, day = 1\<rparr>)"
proof -
  have 1: "calculate_monthly_payment \<lparr>year = 2025, month = 3, day = 14\<rparr> 24000 6
       \<lparr>year = 2027, month = 3, day = 14\<rparr> = Some 1063.69"
    by (simp add: payment_defs)
  have 2: "end_date_loop 1063.69 ((6 / 100) / 12) 24000 \<lparr>year = 2025, month = 3, day = 14\<rparr> 0
       = Inr (Loop_done 0 \<lparr>year = 2027, month = 4, day = 1\<rparr> 25)"
    using payoff_run_24000 by simp
  then have 3: "calculate_end_date \<lparr>year = 2025, month = 3, day = 14\<rparr> 24000 1063.69 6
       = Inr (Some \<lparr>year = 2027, month = 4, day = 1\<rparr>)"
    by (simp add: calculate_end_date_def max_months_def)
  from 1 2 3 show ?thesis by simp
qed

text \<open>
  C1, amended. For a balance of 24000, a rate of 6 percent and a target date 24 months after
  a calendar date \<open>today\<close> (early enough for 25 more months to exist), the payment solver
  returns 1063.69, and the simulator run on that payment leaves its loop after exactly 25
  iterations with balance 0 and returns the month that follows the target month: solver and
  simulator agree to within one month.
\<close>

theorem solver_simulator_within_a_month:
  assumes "valid_date today" and "month_index today + 25 \<le> 120000"
    and "months_until today end_date = 24"
  shows "calculate_monthly_payment today 24000 6 end_date = Some 1063.69
       \<and> (\<exists>D. end_date_loop 1063.69 ((6 / 100) / 12) 24000 today 0 = Inr (Loop_done 0 D 25)
              \<and> calculate_end_date today 24000 1063.69 6 = Inr (Some D)
              \<and> month_index D = month_index end_date + 1)"
proof -
  from assms(1) have cal: "in_calendar today" by (simp add: valid_date_def)
  have 1: "calculate_monthly_payment today 24000 6 end_date = Some 1063.69"
    using assms(3)
    by (simp add: calculate_monthly_payment_def annuity_payment_def py_div_def py_pow_def
        py_round_def Let_def power_int_minus power_divide)
  have room: "month_index today + int (25 - 0) \<le> 120000" using assms(2) by simp
  from end_date_loop_any_date[OF payoff_run_24000 cal room] obtain D where
    D: "end_date_loop (106369 / 100) (1 / 200) 24000 today 0 = Inr (Loop_done 0 D 25)"
    "month_index D = month_index today + int (25 - 0)"
    by blast
  from D(1) have L: "end_date_loop 1063.69 ((6 / 100) / 12) 24000 today 0 = Inr (Loop_done 0 D 25)"
    by simp
  then have 2: "calculate_end_date today 24000 1063.69 6 = Inr (Some D)"
    by (simp add: calculate_end_date_def max_months_def)
  have "month_index end_date = month_index today + 24"
    using assms(3) by (simp add: months_until_def month_index_def algebra_simps)
  with D(2) have 3: "month_index D = month_index end_date + 1" by simp
  from 1 L 2 3 show ?thesis by blast
qed

theorem solver_simulator_within_a_month_witness:
  "valid_date \<lparr>year = 2025, month = 3, day = 14\<rparr>
   \<and> months_until \<lparr>year = 2025, month = 3, day = 14\<rparr> \<lparr>year = 2027, month = 3, day = 14\<rparr> = 24
   \<and> calculate_monthly_payment \<lparr>year = 2025, month = 3, day = 14\<rparr> 24000 6
        \<lparr>year = 2027, month = 3, day = 14\<rparr> = Some 1063.69
   \<and> (\<exists>D. calculate_end_date \<lparr>year = 2025, month = 3, day = 14\<rparr> 24000 1063.69 6 = Inr (Some D)
          \<and> month_index D = month_index \<lparr>year = 2027, month = 3, day = 14\<rparr> + 1)"
proof -
  let ?T = "\<lparr>year = 2025, month = 3, day = 14\<rparr>"
  let ?E = "\<lparr>year = 2027, month = 3, day = 14\<rparr>"
  have v: "valid_date ?T" by (simp add: valid_date_def in_calendar_def)
  have r: "month_index ?T + 25 \<le> 120000" by (simp add: month_index_def)
  have m: "months_until ?T ?E = 24" by (simp add: months_until_def)
  from solver_simulator_within_a_month[OF v r m] v m show ?thesis by blast
qed

text \<open>
  C2, as the claim states it, fails. With a balance of 100, a payment of 100.50 and a rate of
  12 percent the simulator needs two months (100 becomes 0.50, then 0), while the schedule
  generator takes its final-payment branch in the first month, because the balance is below
  the payment, and emits a single row dated one month before the simulator's date.
\<close>

theorem two_pass_agreement_counterexample:
  "calculate_end_date \<lparr>year = 2025, month = 3, day = 14\<rparr> 100 100.5 12
     = Inr (Some \<lparr>year = 2025, month = 5, day = 1\<rparr>)
   \<and> calculate_interest_breakdown \<lparr>year = 2025, month = 3, day = 14\<rparr> 100 100.5 12
       \<lparr>year = 2026, month = 3, day = 14\<rparr>
     = Inr (Schedule
         [\<lparr>row_date = \<lparr>year = 2025, month = 4, day = 1\<rparr>, row_payment = 101,
            row_interest = 1, row_principal = 100, row_balance = 0\<rparr>] 1)"
  using run_100_100_5 by simp

text \<open>
  C2, amended. For a positive balance and a calendar date \<open>today\<close>, whenever the simulator
  returns a payoff date \<open>D\<close> the schedule generator returns a schedule with at least one
  row, one row per month starting at the month after \<open>today\<close>, each dated the first of
  its month, and the last row is dated \<open>D\<close> or earlier: the second pass never ends on a
  later month than the first. It ends on an earlier month only through the final-payment
  branch, that is when the balance before the last row is below the monthly payment.
\<close>

theorem two_pass_rows:
  assumes "valid_date today" and "0 < balance"
    and "calculate_end_date today balance monthly_payment interest_rate = Inr (Some D)"
  shows "\<exists>rows ti.
      calculate_interest_breakdown today balance monthly_payment interest_rate end_date
        = Inr (Schedule rows ti)
      \<and> rows \<noteq> []
      \<and> (\<forall>i<length rows. in_calendar (row_date (rows ! i)) \<and> day (row_date (rows ! i)) = 1
             \<and> month_index (row_date (rows ! i)) = month_index today + 1 + int i)
      \<and> month_index (row_date (last rows)) \<le> month_index D
      \<and> (month_index (row_date (last rows)) < month_index D \<longrightarrow>
            (next_balance monthly_payment ((interest_rate / 100) / 12) ^^ (length rows - 1)) balance
              < monthly_payment)"
proof -
  from assms(1) have cal: "in_calendar today" by (simp add: valid_date_def)
  from schedule_of_end_date[OF assms(3,2) cal, of end_date] obtain rows ti n where
    res: "calculate_interest_breakdown today balance monthly_payment interest_rate end_date
            = Inr (Schedule rows ti)"
    and n: "month_index D = month_index today + int n"
    and ne: "rows \<noteq> []" and len: "length rows \<le> n"
    and dates: "\<forall>i<length rows. in_calendar (row_date (rows ! i))
             \<and> day (row_date (rows ! i)) = 1
             \<and> month_index (row_date (rows ! i)) = month_index today + 1 + int i"
    and early: "length rows < n \<longrightarrow>
             (next_balance monthly_payment ((interest_rate / 100) / 12) ^^ (length rows - 1)) balance
               < monthly_payment"
    by blast
  from ne have l: "last rows = rows ! (length rows - 1)" and lt: "length rows - 1 < length rows"
    by (simp_all add: last_conv_nth)
  from dates[rule_format, OF lt] ne
  have li: "month_index (row_date (last rows)) = month_index today + int (length rows)"
    unfolding l by (cases rows) simp_all
  have 1: "month_index (row_date (last rows)) \<le> month_index D"
    using li n len by simp
  have 2: "month_index (row_date (last rows)) < month_index D \<longrightarrow>
            (next_balance monthly_payment ((interest_rate / 100) / 12) ^^ (length rows - 1)) balance
              < monthly_payment"
    using li n early by simp
  from res ne dates 1 2 show ?thesis by blast
qed

theorem two_pass_rows_witness:
  "valid_date \<lparr>year = 2025, month = 3, day = 14\<rparr>
   \<and> calculate_end_date \<lparr>year = 2025, month = 3, day = 14\<rparr> 100 60 12
        = Inr (Some \<lparr>year = 2025, month = 5, day = 1\<rparr>)
   \<and> (\<exists>rows ti. calculate_interest_breakdown \<lparr>year = 2025, month = 3, day = 14\<rparr> 100 60 12
                     \<lparr>year = 2026, month = 3, day = 14\<rparr> = Inr (Schedule rows ti)
          \<and> rows \<noteq> []
          \<and> month_index (row_date (last rows)) \<le> month_index \<lparr>year = 2025, month = 5, day = 1\<rparr>)"
proof -
  have v: "valid_date \<lparr>year = 2025, month = 3, day = 14\<rparr>"
    by (simp add: valid_date_def in_calendar_def)
  have p: "(0::real) < 100" by simp
  from two_pass_rows[OF v p run_100_60(1), of "\<lparr>year = 2026, month = 3, day = 14\<rparr>"]
  show ?thesis using v run_100_60(1) by blast
qed




text \<open>
  C4, as the claim states it, fails: the simulator also returns None when the loop reaches
  1200 iterations without any iteration finding the payment at or below the interest. For a
  balance of 1000000, a payment of 2 and a rate of 0.0012 percent the interest stays near 1,
  the loop is never left through the unrepayable test, and the result is None.
\<close>

theorem unrepayable_exactly_counterexample:
  "calculate_end_date \<lparr>year = 2025, month = 3, day = 14\<rparr> 1000000 2 0.0012 = Inr None
   \<and> \<not> is_unrepayable
         (end_date_loop 2 ((0.0012 / 100) / 12) 1000000 \<lparr>year = 2025, month = 3, day = 14\<rparr> 0)"
proof -
  let ?T = "\<lparr>year = 2025, month = 3, day = 14\<rparr>"
  obtain b' c' where
    L: "end_date_loop 2 ((0.0012 / 100) / 12) 1000000 ?T 0 = Inr (Loop_done b' c' 1200)"
    using slow_payoff_hits_cap[where B = 1000000 and b = 1000000 and mp = 2
        and r = "(0.0012 / 100) / 12" and n = 0 and c = ?T]
    by (auto simp: in_calendar_def month_index_def)
  then show ?thesis
    by (simp add: calculate_end_date_def is_unrepayable_def max_months_def)
qed

text \<open>
  C4, amended. The simulator returns None exactly when the payment is not positive, or the
  loop is left through the unrepayable test, or the loop is left with the count at 1200.
  The unrepayable test fires only on an iteration after the first, with the payment at or
  below that iteration's interest; the first iteration always takes its step, whatever the
  interest. For a balance of 10000, a payment of 10 and a rate of 12 percent the result is
  None.
\<close>

theorem unrepayable_detection:
  "(calculate_end_date today balance monthly_payment interest_rate = Inr None \<longleftrightarrow>
      monthly_payment \<le> 0
      \<or> is_unrepayable (end_date_loop monthly_payment ((interest_rate / 100) / 12) balance today 0)
      \<or> hit_cap (end_date_loop monthly_payment ((interest_rate / 100) / 12) balance today 0))
   \<and> (\<forall>b n. end_date_loop monthly_payment ((interest_rate / 100) / 12) balance today 0
               = Inr (Unrepayable b n) \<longrightarrow>
          0 < n \<and> monthly_payment \<le> b * ((interest_rate / 100) / 12))
   \<and> (\<forall>c. 0 < balance \<and> increment_month today = Inr c \<longrightarrow>
          end_date_loop monthly_payment ((interest_rate / 100) / 12) balance today 0
            = end_date_loop monthly_payment ((interest_rate / 100) / 12)
                (next_balance monthly_payment ((interest_rate / 100) / 12) balance) c 1)
   \<and> (\<forall>c. increment_month today = Inr c \<longrightarrow>
          calculate_end_date today 10000 10 12 = Inr None)"
proof (intro conjI allI impI)
  show "calculate_end_date today balance monthly_payment interest_rate = Inr None \<longleftrightarrow>
      monthly_payment \<le> 0
      \<or> is_unrepayable (end_date_loop monthly_payment ((interest_rate / 100) / 12) balance today 0)
      \<or> hit_cap (end_date_loop monthly_payment ((interest_rate / 100) / 12) balance today 0)"
    by (auto simp: calculate_end_date_def is_unrepayable_def hit_cap_def Let_def
        split: sum.splits sim_exit.splits)
next
  fix b n
  assume "end_date_loop monthly_payment ((interest_rate / 100) / 12) balance today 0
               = Inr (Unrepayable b n)"
  from end_date_loop_unrepayable[OF this]
  show "0 < n" and "monthly_payment \<le> b * ((interest_rate / 100) / 12)" by simp_all
next
  fix c
  assume "0 < balance \<and> increment_month today = Inr c"
  then show "end_date_loop monthly_payment ((interest_rate / 100) / 12) balance today 0
            = end_date_loop monthly_payment ((interest_rate / 100) / 12)
                (next_balance monthly_payment ((interest_rate / 100) / 12) balance) c 1"
    using end_date_loop_next[of balance 0 monthly_payment "(interest_rate / 100) / 12" today c]
    by (simp add: max_months_def)
next
  fix c
  assume c: "increment_month today = Inr c"
  have nb: "next_balance 10 (1 / 100) 10000 = 10090"
    by (simp add: next_balance_def py_round_def Let_def)
  have "end_date_loop 10 ((12 / 100) / 12) 10000 today 0
          = end_date_loop 10 ((12 / 100) / 12) 10090 c 1"
    using end_date_loop_next[of 10000 0 10 "(12 / 100) / 12" today c] c
    by (simp add: max_months_def nb)
  also have "\<dots> = Inr (Unrepayable 10090 1)"
    by (rule end_date_loop_detect) (simp_all add: max_months_def)
  finally show "calculate_end_date today 10000 10 12 = Inr None"
    by (simp add: calculate_end_date_def)
qed

theorem unrepayable_detection_witness:
  "increment_month \<lparr>year = 2025, month = 3, day = 14\<rparr> = Inr \<lparr>year = 2025, month = 4, day = 1\<rparr>
   \<and> calculate_end_date \<lparr>year = 2025, month = 3, day = 14\<rparr> 10000 10 12 = Inr None
   \<and> is_unrepayable
        (end_date_loop 10 ((12 / 100) / 12) 10000 \<lparr>year = 2025, month = 3, day = 14\<rparr> 0)"
proof -
  let ?T = "\<lparr>year = 2025, month = 3, day = 14\<rparr>"
  let ?C = "\<lparr>year = 2025, month = 4, day = 1\<rparr>"
  note t = unrepayable_detection[where today = ?T and balance = 10000
      and monthly_payment = 10 and interest_rate = 12]
  have c: "increment_month ?T = Inr ?C"
    by (simp add: increment_month_def first_of_month_def)
  have nb: "next_balance 10 (1 / 100) 10000 = 10090"
    by (simp add: next_balance_def py_round_def Let_def)
  from t c have "end_date_loop 10 ((12 / 100) / 12) 10000 ?T 0
      = end_date_loop 10 ((12 / 100) / 12) 10090 ?C 1"
    by (simp add: nb)
  also have "\<dots> = Inr (Unrepayable 10090 1)"
    by (rule end_date_loop_detect) (simp_all add: max_months_def)
  finally have u: "is_unrepayable (end_date_loop 10 ((12 / 100) / 12) 10000 ?T 0)"
    by (simp add: is_unrepayable_def)
  from t c have "calculate_end_date ?T 10000 10 12 = Inr None" by blast
  with c u show ?thesis by simp
qed

text \<open>
  C5. With an annual rate of zero and a target date a positive number of months away, the
  payment solver takes the branch \<^verbatim>\<open>payment = balance / months\<close> and returns
  \<^verbatim>\<open>round(balance / months, 2)\<close>: on binary64 values, the double nearest to the two-decimal
  rounding of the double nearest to the quotient. That value is within half a cent of the
  exact quotient, up to the relative error \<open>2^(-51)\<close> of the two float roundings. For a
  balance of 1200 and a target twelve months out it is exactly 100. For a balance of 107
  over 40 months it is the double 2.67: the exact quotient 2.675 is a tie, which rounding
  on the reals would send to 2.68, but the double nearest to it lies below the tie.
\<close>

theorem zero_rate_payment:
  "(0 < months_until today end_date \<longrightarrow>
      (\<exists>p. calculate_monthly_payment_binary64 float_pow today balance 0 end_date = Some p
            \<and> p = binary64 (py_round (binary64 (balance / of_int (months_until today end_date))) 2)
            \<and> \<bar>p - balance / of_int (months_until today end_date)\<bar>
                  \<le> 1 / 200 + (\<bar>balance / of_int (months_until today end_date)\<bar> + 1) / 2 ^ 51))
   \<and> (months_until today end_date = 12 \<longrightarrow>
      calculate_monthly_payment_binary64 float_pow today 1200 0 end_date = Some 100)
   \<and> (months_until today end_date = 40 \<longrightarrow>
      calculate_monthly_payment_binary64 float_pow today 107 0 end_date = Some (binary64 2.67)
      \<and> binary64 2.67 \<noteq> py_round (107 / 40) 2)"
proof (intro conjI impI)
  assume "0 < months_until today end_date"
  then have "calculate_monthly_payment_binary64 float_pow today balance 0 end_date
        = Some (binary64 (py_round (binary64 (balance / of_int (months_until today end_date))) 2))"
    by (simp add: calculate_monthly_payment_binary64_def Let_def binary64_zero)
  then show "\<exists>p. calculate_monthly_payment_binary64 float_pow today balance 0 end_date = Some p
            \<and> p = binary64 (py_round (binary64 (balance / of_int (months_until today end_date))) 2)
            \<and> \<bar>p - balance / of_int (months_until today end_date)\<bar>
                  \<le> 1 / 200 + (\<bar>balance / of_int (months_until today end_date)\<bar> + 1) / 2 ^ 51"
    using binary64_round_error[of "balance / of_int (months_until today end_date)"] by blast
next
  assume "months_until today end_date = 12"
  then show "calculate_monthly_payment_binary64 float_pow today 1200 0 end_date = Some 100"
    by (simp add: calculate_monthly_payment_binary64_def Let_def binary64_zero binary64_100)
next
  assume "months_until today end_date = 40"
  then show "calculate_monthly_payment_binary64 float_pow today 107 0 end_date
        = Some (binary64 2.67)"
    using binary64_107_40
    by (simp only: calculate_monthly_payment_binary64_def Let_def binary64_zero)
       (simp add: binary64_zero)
next
  show "binary64 2.67 \<noteq> py_round (107 / 40) 2"
    unfolding binary64_267 py_round_107_40 by simp
qed

theorem zero_rate_payment_witness:
  "months_until \<lparr>year = 2025, month = 3, day = 14\<rparr> \<lparr>year = 2026, month = 3, day = 2\<rparr> = 12
   \<and> calculate_monthly_payment_binary64 py_pow \<lparr>year = 2025, month = 3, day = 14\<rparr> 1200 0
         \<lparr>year = 2026, month = 3, day = 2\<rparr> = Some 100
   \<and> months_until \<lparr>year = 2025, month = 3, day = 14\<rparr> \<lparr>year = 2028, month = 7, day = 1\<rparr> = 40
   \<and> calculate_monthly_payment_binary64 py_pow \<lparr>year = 2025, month = 3, day = 14\<rparr> 107 0
         \<lparr>year = 2028, month = 7, day = 1\<rparr> = Some (binary64 2.67)"
proof -
  let ?T = "\<lparr>year = 2025, month = 3, day = 14\<rparr>"
  have m12: "months_until ?T \<lparr>year = 2026, month = 3, day = 2\<rparr> = 12"
    by (simp add: months_until_def)
  have m40: "months_until ?T \<lparr>year = 2028, month = 7, day = 1\<rparr> = 40"
    by (simp add: months_until_def)
  from zero_rate_payment[of ?T "\<lparr>year = 2026, month = 3, day = 2\<rparr>" py_pow 1200] m12
  have 1: "calculate_monthly_payment_binary64 py_pow ?T 1200 0
         \<lparr>year = 2026, month = 3, day = 2\<rparr> = Some 100" by blast
  from zero_rate_payment[of ?T "\<lparr>year = 2028, month = 7, day = 1\<rparr>" py_pow 107] m40
  have 2: "calculate_monthly_payment_binary64 py_pow ?T 107 0
         \<lparr>year = 2028, month = 7, day = 1\<rparr> = Some (binary64 2.67)" by blast
  from m12 1 m40 2 show ?thesis by blast
qed

text \<open>
  C6. The loop of the payoff simulator is entered with \<open>count = 0\<close> and is left with
  \<open>count\<close> at most 1200; when it is left with \<open>count = 1200\<close>, whatever the balance,
  \<open>calculate_end_date\<close> returns None. The loop of the rate solver begins at most 300
  iterations, and when the range is used up without convergence
  \<open>calculate_interest_rate\<close> returns None. Both loops are total functions: their
  termination is proved with the measures \<open>max_months - count\<close> and \<open>300 - i\<close>.
\<close>

theorem bounded_termination:
  "(\<forall>b c n. end_date_loop monthly_payment ((interest_rate / 100) / 12) balance today 0
               = Inr (Loop_done b c n) \<longrightarrow>
        n \<le> 1200
        \<and> (n = 1200 \<longrightarrow>
             calculate_end_date today balance monthly_payment interest_rate = Inr None))
   \<and> (\<forall>b n. end_date_loop monthly_payment ((interest_rate / 100) / 12) balance today 0
               = Inr (Unrepayable b n) \<longrightarrow> n < 1200)
   \<and> iterations (rate_loop today balance monthly_payment end_date 0 0.0001 100.0) \<le> 300
   \<and> (\<forall>n. rate_loop today balance monthly_payment end_date 0 0.0001 100.0 = Exhausted n \<longrightarrow>
          n = 300
          \<and> calculate_interest_rate today balance monthly_payment end_date = Inr None)"
proof (intro conjI allI impI)
  fix b c n
  assume L: "end_date_loop monthly_payment ((interest_rate / 100) / 12) balance today 0
               = Inr (Loop_done b c n)"
  from end_date_loop_done[OF L] show "n \<le> 1200" by (simp add: max_months_def)
  assume "n = 1200"
  with L show "calculate_end_date today balance monthly_payment interest_rate = Inr None"
    by (simp add: calculate_end_date_def max_months_def)
next
  fix b n
  assume "end_date_loop monthly_payment ((interest_rate / 100) / 12) balance today 0
               = Inr (Unrepayable b n)"
  from end_date_loop_unrepayable[OF this] show "n < 1200" by (simp add: max_months_def)
next
  show "iterations (rate_loop today balance monthly_payment end_date 0 0.0001 100.0) \<le> 300"
    using rate_loop_exits[of 0 today balance monthly_payment end_date "0.0001" "100.0"] by simp
next
  fix n
  assume E: "rate_loop today balance monthly_payment end_date 0 0.0001 100.0 = Exhausted n"
  show "n = 300"
    using rate_loop_exits[of 0 today balance monthly_payment end_date "0.0001" "100.0"] E by simp
  show "calculate_interest_rate today balance monthly_payment end_date = Inr None"
    using E by (simp add: calculate_interest_rate_def py_div_def Let_def)
qed

theorem bounded_termination_witness:
  "hit_cap (end_date_loop 2 ((0.0012 / 100) / 12) 1000000 \<lparr>year = 2025, month = 3, day = 14\<rparr> 0)
   \<and> calculate_end_date \<lparr>year = 2025, month = 3, day = 14\<rparr> 1000000 2 0.0012 = Inr None
   \<and> rate_loop \<lparr>year = 2025, month = 3, day = 14\<rparr> 1200 2000
        \<lparr>year = 2025, month = 4, day = 30\<rparr> 0 0.0001 100.0 = Exhausted 300
   \<and> calculate_interest_rate \<lparr>year = 2025, month = 3, day = 14\<rparr> 1200 2000
        \<lparr>year = 2025, month = 4, day = 30\<rparr> = Inr None"
proof -
  let ?T = "\<lparr>year = 2025, month = 3, day = 14\<rparr>"
  let ?E = "\<lparr>year = 2025, month = 4, day = 30\<rparr>"
  obtain b' c' where
    L: "end_date_loop 2 ((0.0012 / 100) / 12) 1000000 ?T 0 = Inr (Loop_done b' c' 1200)"
    using slow_payoff_hits_cap[where B = 1000000 and b = 1000000 and mp = 2
        and r = "(0.0012 / 100) / 12" and n = 0 and c = ?T]
    by (auto simp: in_calendar_def month_index_def)
  have m: "months_until ?T ?E = 1" by (simp add: months_until_def)
  have "\<forall>mid. 0.0001 < mid \<and> mid < 100.0 \<longrightarrow>
          (\<exists>est. calculate_monthly_payment ?T 1200 mid ?E = Some est \<and> est + 1 / 100 \<le> 2000)"
  proof (intro allI impI)
    fix mid :: real
    assume mid: "0.0001 < mid \<and> mid < 100.0"
    then have pos: "0 < mid" by simp
    have "py_round (1200 + 1200 * mid / 1200) 2 \<le> of_int 130000 / 10 ^ 2"
      by (rule py_round_upper) (use mid in simp)
    then show "\<exists>est. calculate_monthly_payment ?T 1200 mid ?E = Some est \<and> est + 1 / 100 \<le> 2000"
      unfolding one_month_payment[OF m pos] by simp
  qed
  then have R: "rate_loop ?T 1200 2000 ?E 0 0.0001 100.0 = Exhausted 300"
    by (intro rate_loop_never_converges) simp_all
  from bounded_termination[where monthly_payment = 2 and interest_rate = "0.0012"
      and balance = 1000000 and today = ?T] L
  have 1: "calculate_end_date ?T 1000000 2 0.0012 = Inr None" by simp
  from bounded_termination[where monthly_payment = 2000 and balance = 1200
      and today = ?T and end_date = ?E] R
  have 2: "calculate_interest_rate ?T 1200 2000 ?E = Inr None" by simp
  from L have 3: "hit_cap (end_date_loop 2 ((0.0012 / 100) / 12) 1000000 ?T 0)"
    by (simp add: hit_cap_def max_months_def)
  from 1 2 3 R show ?thesis by simp
qed

text \<open>
  C7. For a positive balance and a calendar date \<open>today\<close>, every schedule the generator
  returns has a last row whose remaining balance is exactly 0, and the principal portions
  of its rows add up to the original balance within one cent for each row emitted, the
  rounding tolerance accumulated over the rows.
\<close>

theorem schedule_totals:
  assumes "valid_date today" and "0 < balance"
    and "calculate_interest_breakdown today balance monthly_payment interest_rate end_date
           = Inr (Schedule rows ti)"
  shows "rows \<noteq> [] \<and> row_balance (last rows) = 0
       \<and> \<bar>principal_total rows - balance\<bar> \<le> real (length rows) / 100"
proof -
  from assms(1) have cal: "in_calendar today" by (simp add: valid_date_def)
  from assms(3) obtain D where
    D: "calculate_end_date today balance monthly_payment interest_rate = Inr (Some D)"
    unfolding calculate_interest_breakdown_def Let_def
    by (auto split: sum.splits option.splits)
  from schedule_of_end_date[OF D assms(2) cal, of end_date] assms(3)
  show ?thesis by auto
qed

theorem schedule_totals_witness:
  "valid_date \<lparr>year = 2025, month = 3, day = 14\<rparr>
   \<and> calculate_interest_breakdown \<lparr>year = 2025, month = 3, day = 14\<rparr> 100 60 12
       \<lparr>year = 2026, month = 3, day = 14\<rparr>
     = Inr (Schedule
         [\<lparr>row_date = \<lparr>year = 2025, month = 4, day = 1\<rparr>, row_payment = 60,
            row_interest = 1, row_principal = 59, row_balance = 41\<rparr>,
          \<lparr>row_date = \<lparr>year = 2025, month = 5, day = 1\<rparr>, row_payment = 41.41,
            row_interest = 0.41, row_principal = 41, row_balance = 0\<rparr>] 1.41)
   \<and> \<bar>principal_total
         [\<lparr>row_date = \<lparr>year = 2025, month = 4, day = 1\<rparr>, row_payment = 60,
            row_interest = 1, row_principal = 59, row_balance = 41\<rparr>,
          \<lparr>row_date = \<lparr>year = 2025, month = 5, day = 1\<rparr>, row_payment = 41.41,
            row_interest = 0.41, row_principal = 41, row_balance = 0\<rparr>] - 100\<bar> \<le> 2 / 100"
proof -
  have v: "valid_date \<lparr>year = 2025, month = 3, day = 14\<rparr>"
    by (simp add: valid_date_def in_calendar_def)
  have p: "(0::real) < 100" by simp
  from schedule_totals[OF v p run_100_60(3)]
  show ?thesis using v run_100_60(3) by simp
qed



text \<open>
  C9. A regular step of either loop replaces the balance by
  \<open>max 0 (round (balance - principal_paid) 2)\<close>, which is never negative. In the simulator
  the balance the loop is left with is that step applied once per iteration, so it is not
  negative as soon as one step was taken or the initial balance was not negative. In the
  schedule generator the remaining balance of every row is not negative, for every input;
  for a positive balance and a calendar date \<open>today\<close> each row but the last carries the
  stepped balance and the last row carries 0.
\<close>

theorem balance_never_negative:
  "next_balance monthly_payment monthly_rate balance
     = max 0 (py_round (balance - (monthly_payment - balance * monthly_rate)) 2)
   \<and> 0 \<le> next_balance monthly_payment monthly_rate balance
   \<and> (\<forall>b' c' n'. end_date_loop monthly_payment monthly_rate balance current count
                    = Inr (Loop_done b' c' n') \<longrightarrow>
          b' = (next_balance monthly_payment monthly_rate ^^ (n' - count)) balance
          \<and> (0 \<le> balance \<or> count < n' \<longrightarrow> 0 \<le> b'))
   \<and> (\<forall>b' n'. end_date_loop monthly_payment monthly_rate balance current count
                 = Inr (Unrepayable b' n') \<longrightarrow> 0 < b')
   \<and> (\<forall>rows ti. calculate_interest_breakdown today balance monthly_payment interest_rate end_date
                   = Inr (Schedule rows ti) \<longrightarrow>
          (\<forall>row\<in>set rows. 0 \<le> row_balance row)
          \<and> (valid_date today \<and> 0 < balance \<longrightarrow>
                row_balance (last rows) = 0
                \<and> (\<forall>i. Suc i < length rows \<longrightarrow>
                      row_balance (rows ! i)
                        = (next_balance monthly_payment ((interest_rate / 100) / 12) ^^ Suc i)
                            balance)))"
proof (intro conjI)
  show "next_balance monthly_payment monthly_rate balance
     = max 0 (py_round (balance - (monthly_payment - balance * monthly_rate)) 2)"
    by (simp add: next_balance_def)
  show "0 \<le> next_balance monthly_payment monthly_rate balance"
    by (rule next_balance_nonneg)
  show "\<forall>b' c' n'. end_date_loop monthly_payment monthly_rate balance current count
                    = Inr (Loop_done b' c' n') \<longrightarrow>
          b' = (next_balance monthly_payment monthly_rate ^^ (n' - count)) balance
          \<and> (0 \<le> balance \<or> count < n' \<longrightarrow> 0 \<le> b')"
  proof (intro allI impI)
    fix b' c' n'
    assume L: "end_date_loop monthly_payment monthly_rate balance current count
                 = Inr (Loop_done b' c' n')"
    from end_date_loop_balances[OF L] end_date_loop_done[OF L]
    show "b' = (next_balance monthly_payment monthly_rate ^^ (n' - count)) balance
          \<and> (0 \<le> balance \<or> count < n' \<longrightarrow> 0 \<le> b')"
      by blast
  qed
  show "\<forall>b' n'. end_date_loop monthly_payment monthly_rate balance current count
                 = Inr (Unrepayable b' n') \<longrightarrow> 0 < b'"
    using end_date_loop_unrepayable by blast
  show "\<forall>rows ti. calculate_interest_breakdown today balance monthly_payment interest_rate end_date
                   = Inr (Schedule rows ti) \<longrightarrow>
          (\<forall>row\<in>set rows. 0 \<le> row_balance row)
          \<and> (valid_date today \<and> 0 < balance \<longrightarrow>
                row_balance (last rows) = 0
                \<and> (\<forall>i. Suc i < length rows \<longrightarrow>
                      row_balance (rows ! i)
                        = (next_balance monthly_payment ((interest_rate / 100) / 12) ^^ Suc i)
                            balance))"
  proof (intro allI impI)
    fix rows ti
    assume S: "calculate_interest_breakdown today balance monthly_payment interest_rate end_date
                 = Inr (Schedule rows ti)"
    then obtain c D tot where
      D: "calculate_end_date today balance monthly_payment interest_rate = Inr (Some D)"
      and "breakdown_loop monthly_payment ((interest_rate / 100) / 12) D balance c 0 []
             = Inr (rows, tot)"
      unfolding calculate_interest_breakdown_def Let_def
      by (auto split: sum.splits option.splits)
    from breakdown_loop_balances_nonneg[OF this(2)]
    have 1: "\<forall>row\<in>set rows. 0 \<le> row_balance row" by simp
    have 2: "valid_date today \<and> 0 < balance \<longrightarrow>
                row_balance (last rows) = 0
                \<and> (\<forall>i. Suc i < length rows \<longrightarrow>
                      row_balance (rows ! i)
                        = (next_balance monthly_payment ((interest_rate / 100) / 12) ^^ Suc i)
                            balance)"
    proof
      assume v: "valid_date today \<and> 0 < balance"
      then have cal: "in_calendar today" and b: "0 < balance" by (simp_all add: valid_date_def)
      from schedule_of_end_date[OF D b cal, of end_date] S
      show "row_balance (last rows) = 0
                \<and> (\<forall>i. Suc i < length rows \<longrightarrow>
                      row_balance (rows ! i)
                        = (next_balance monthly_payment ((interest_rate / 100) / 12) ^^ Suc i)
                            balance)"
        by auto
    qed
    from 1 2 show "(\<forall>row\<in>set rows. 0 \<le> row_balance row)
          \<and> (valid_date today \<and> 0 < balance \<longrightarrow>
                row_balance (last rows) = 0
                \<and> (\<forall>i. Suc i < length rows \<longrightarrow>
                      row_balance (rows ! i)
                        = (next_balance monthly_payment ((interest_rate / 100) / 12) ^^ Suc i)
                            balance))"
      by blast
  qed
qed

theorem balance_never_negative_witness:
  "end_date_loop 60 ((12 / 100) / 12) 100 \<lparr>year = 2025, month = 3, day = 14\<rparr> 0
     = Inr (Loop_done 0 \<lparr>year = 2025, month = 5, day = 1\<rparr> 2)
   \<and> (next_balance 60 ((12 / 100) / 12) ^^ 2) 100 = 0
   \<and> valid_date \<lparr>year = 2025, month = 3, day = 14\<rparr>
   \<and> calculate_interest_breakdown \<lparr>year = 2025, month = 3, day = 14\<rparr> 100 60 12
       \<lparr>year = 2026, month = 3, day = 14\<rparr>
     = Inr (Schedule
         [\<lparr>row_date = \<lparr>year = 2025, month = 4, day = 1\<rparr>, row_payment = 60,
            row_interest = 1, row_principal = 59, row_balance = 41\<rparr>,
          \<lparr>row_date = \<lparr>year = 2025, month = 5, day = 1\<rparr>, row_payment = 41.41,
            row_interest = 0.41, row_principal = 41, row_balance = 0\<rparr>] 1.41)"
proof -
  let ?T = "\<lparr>year = 2025, month = 3, day = 14\<rparr>"
  have v: "valid_date ?T" by (simp add: valid_date_def in_calendar_def)
  note t = balance_never_negative[where monthly_payment = 60 and monthly_rate = "(12 / 100) / 12"
      and balance = 100 and current = ?T and count = 0 and today = ?T and interest_rate = 12
      and end_date = "\<lparr>year = 2026, month = 3, day = 14\<rparr>"]
  from t have "\<forall>b' c' n'. end_date_loop 60 ((12 / 100) / 12) 100 ?T 0 = Inr (Loop_done b' c' n') \<longrightarrow>
          b' = (next_balance 60 ((12 / 100) / 12) ^^ (n' - 0)) 100"
    by blast
  with run_100_60(2) have a: "0 = (next_balance 60 ((12 / 100) / 12) ^^ (2 - 0)) 100"
    by blast
  with v run_100_60(2,3) show ?thesis by simp
qed

text \<open>
  C10. Whenever the rate solver returns a rate, that rate is a bisection midpoint lying
  strictly between 0.0001 and 100, rounded to four decimals; so it is positive and at
  most 100.
\<close>

theorem rate_in_range:
  assumes "calculate_interest_rate today balance monthly_payment end_date = Inr (Some r)"
  shows "(\<exists>mid. 0.0001 < mid \<and> mid < 100 \<and> r = py_round mid 4) \<and> 0 < r \<and> r \<le> 100"
proof -
  from calculate_interest_rate_Some[OF assms] obtain n where
    "rate_loop today balance monthly_payment end_date 0 0.0001 100.0 = Converged r n" ..
  from rate_loop_converged[OF this] obtain mid where
    mid: "0.0001 < mid" "mid < 100" "r = py_round mid 4"
    by auto
  have "of_int 1 / 10 ^ 4 \<le> py_round mid 4"
    by (rule py_round_lower) (use mid(1) in simp)
  moreover have "py_round mid 4 \<le> of_int 1000000 / 10 ^ 4"
    by (rule py_round_upper) (use mid(2) in simp)
  ultimately have "0 < r" "r \<le> 100" using mid(3) by simp_all
  with mid show ?thesis by blast
qed

theorem rate_in_range_witness:
  "calculate_interest_rate \<lparr>year = 2025, month = 3, day = 14\<rparr> 1200 1212.5
       \<lparr>year = 2025, month = 4, day = 30\<rparr> = Inr (Some 12.5001)
   \<and> (0::real) < 12.5001 \<and> (12.5001::real) \<le> 100"
proof -
  let ?T = "\<lparr>year = 2025, month = 3, day = 14\<rparr>"
  let ?E = "\<lparr>year = 2025, month = 4, day = 30\<rparr>"
  have m: "months_until ?T ?E = 1" by (simp add: months_until_def)
  have v: "calculate_interest_rate ?T 1200 1212.5 ?E = Inr (Some 12.5001)"
    by (simp add: calculate_interest_rate_def m py_div_def rate_loop.simps
        one_month_payment[OF m] py_round_def Let_def)
  from rate_in_range[OF v] v show ?thesis by simp
qed

end
